theory Spec2Isabelle
  imports Complex_Main "HOL-Library.AList"
begin

section \<open>The corpus (notebook cell 3, class Corpus)\<close>

text \<open>
  A token is the text of a spaCy token, a sentence the list of the token texts of one
  element of \<open>doc.sents\<close>. The document is kept as the list of its sentences; spaCy's
  sentences partition the tokens of the document, so iterating the document visits the
  tokens of the sentences in order.
\<close>

type_synonym token = string
type_synonym sentence = "token list"

record Corpus =
  test_percentage :: real
  doc :: "sentence list"

text \<open>
  \<open>np.random\<close> is a global generator. It is modelled by the sequence of the values that
  successive calls of \<open>np.random.random()\<close> return, together with the number of calls made
  so far, which every function that draws takes and returns.
\<close>

type_synonym rng = "nat \<Rightarrow> real"

definition np_random :: "rng \<Rightarrow> nat \<Rightarrow> real \<times> nat" where
  "np_random rnd k = (rnd k, Suc k)"

definition get_words :: "Corpus \<Rightarrow> token list" where
  "get_words c = concat (doc c)"

text \<open>
  \<open>get_sentences\<close>: the condition
  \<^verbatim>\<open>(np.random.random() >= p and not test) or (np.random.random() < p and test)\<close>
  calls the generator once, and a second time when the first conjunction is false
  (\<open>and\<close> and \<open>or\<close> evaluate from the left and stop as soon as the result is known).
\<close>

fun sentences_loop :: "rng \<Rightarrow> real \<Rightarrow> bool \<Rightarrow> sentence list \<Rightarrow> nat \<Rightarrow> sentence list \<times> nat" where
  "sentences_loop rnd p test [] k = ([], k)"
| "sentences_loop rnd p test (sent # rest) k =
     (if fst (np_random rnd k) \<ge> p \<and> \<not> test then
        (case sentences_loop rnd p test rest (snd (np_random rnd k)) of
           (out, k') \<Rightarrow> (sent # out, k'))
      else
        (if fst (np_random rnd (snd (np_random rnd k))) < p \<and> test then
           (case sentences_loop rnd p test rest (snd (np_random rnd (snd (np_random rnd k)))) of
              (out, k') \<Rightarrow> (sent # out, k'))
         else sentences_loop rnd p test rest (snd (np_random rnd (snd (np_random rnd k))))))"

definition get_sentences :: "rng \<Rightarrow> Corpus \<Rightarrow> bool \<Rightarrow> nat \<Rightarrow> sentence list \<times> nat" where
  "get_sentences rnd c test k = sentences_loop rnd (test_percentage c) test (doc c) k"

text \<open>
  \<open>get_ngrams\<close>: \<open>window\<close> is the tuple \<^verbatim>\<open>(*[sent[pos+i].text for i in range(n)],)\<close>,
  \<open>positions_loop\<close> the loop over \<^verbatim>\<open>range(len(sent))\<close> with its \<^verbatim>\<open>break\<close>.
\<close>

definition window :: "int \<Rightarrow> sentence \<Rightarrow> nat \<Rightarrow> token list" where
  "window n sent pos = map (\<lambda>i. sent ! (pos + i)) [0..<nat n]"

fun positions_loop :: "int \<Rightarrow> sentence \<Rightarrow> nat list \<Rightarrow> token list list" where
  "positions_loop n sent [] = []"
| "positions_loop n sent (pos # rest) =
     (if int (length sent) - int pos < n then []
      else window n sent pos # positions_loop n sent rest)"

definition sentence_ngrams :: "int \<Rightarrow> sentence \<Rightarrow> token list list" where
  "sentence_ngrams n sent =
     (if length sent < 10 then [] else positions_loop n sent [0..<length sent])"

definition get_ngrams :: "rng \<Rightarrow> Corpus \<Rightarrow> int \<Rightarrow> bool \<Rightarrow> nat \<Rightarrow> token list list \<times> nat" where
  "get_ngrams rnd c n test k =
     (case get_sentences rnd c test k of
        (sents, k') \<Rightarrow> (concat (map (sentence_ngrams n) sents), k'))"


section \<open>Python sequences, dictionaries and counters\<close>

datatype error = ValueError | TypeError | ZeroDivisionError | IndexError

text \<open>
  \<^verbatim>\<open>xs[s:]\<close>, \<^verbatim>\<open>xs[0:e]\<close> and \<^verbatim>\<open>xs[i]\<close>: a negative bound or index counts from
  the end; a slice clamps its bounds to the sequence, an index out of range raises.
\<close>

definition slice_from :: "int \<Rightarrow> 'a list \<Rightarrow> 'a list" where
  "slice_from s xs =
     (if s < 0 then drop (nat (max (int (length xs) + s) 0)) xs
      else drop (nat (min s (int (length xs)))) xs)"

definition slice_to :: "int \<Rightarrow> 'a list \<Rightarrow> 'a list" where
  "slice_to e xs =
     (if e < 0 then take (nat (max (int (length xs) + e) 0)) xs
      else take (nat (min e (int (length xs)))) xs)"

definition getitem :: "'a list \<Rightarrow> int \<Rightarrow> error + 'a" where
  "getitem xs i =
     (let len = int (length xs); j = (if i < 0 then len + i else i)
      in if 0 \<le> j \<and> j < len then Inr (xs ! nat j) else Inl IndexError)"

text \<open>
  A \<open>collections.Counter\<close> is a dictionary from n-gram tuples to integers. Reading a key
  it does not hold gives 0 and stores nothing (\<open>Counter.__missing__\<close>); the table is
  returned beside the value so that this is visible. \<open>Counter(iterable)\<close> adds one to the
  count of each element in turn.
\<close>

type_synonym Counter = "token list \<rightharpoonup> int"

definition getitem_Counter :: "Counter \<Rightarrow> token list \<Rightarrow> int \<times> Counter" where
  "getitem_Counter c g = (case c g of None \<Rightarrow> (0, c) | Some v \<Rightarrow> (v, c))"

definition counter_get :: "Counter \<Rightarrow> token list \<Rightarrow> int" where
  "counter_get c g = fst (getitem_Counter c g)"

fun counter_update :: "Counter \<Rightarrow> token list list \<Rightarrow> Counter" where
  "counter_update c [] = c"
| "counter_update c (g # gs) = counter_update (c(g \<mapsto> counter_get c g + 1)) gs"

definition new_Counter :: "token list list \<Rightarrow> Counter" where
  "new_Counter gs = counter_update Map.empty gs"

section \<open>The model (notebook cell 5, class NgramModel)\<close>

text \<open>
  The field \<open>self_n\<close> is the attribute \<open>n\<close>. \<open>ngrams\<close> and \<open>alphabet\<close> are \<open>None\<close> until
  \<open>learn\<close> runs. The alphabet is a Python set; it is kept as the list of its elements in
  the order in which the set iterates, which Python leaves open: \<open>learn\<close> builds one such
  list, without repetitions, and no result below depends on the order.
  A dictionary that the code builds by insertion (\<open>matches\<close>, the returned distribution)
  is an association list in insertion order; \<open>AList.update\<close> is \<^verbatim>\<open>d[k] = v\<close>.
\<close>

record NgramModel =
  self_n :: int
  ngrams :: "Counter option"
  alphabet :: "token list option"

definition init_NgramModel :: "int \<Rightarrow> NgramModel" where
  "init_NgramModel n = \<lparr>self_n = n, ngrams = None, alphabet = None\<rparr>"

definition learn :: "rng \<Rightarrow> NgramModel \<Rightarrow> Corpus \<Rightarrow> nat \<Rightarrow> NgramModel \<times> nat" where
  "learn rnd self corpus k =
     (case get_ngrams rnd corpus (self_n self) False k of
        (gs, k') \<Rightarrow>
          (self\<lparr>ngrams := Some (new_Counter gs),
                alphabet := Some (remdups (get_words corpus))\<rparr>, k'))"

text \<open>The loop \<^verbatim>\<open>for word in self.alphabet\<close> of \<open>predict\<close>, filling \<open>matches\<close>.\<close>

fun matches_loop ::
  "Counter option \<Rightarrow> token list \<Rightarrow> token list \<Rightarrow> (token \<times> int) list \<Rightarrow> error + (token \<times> int) list" where
  "matches_loop tab ctxt [] matches = Inr matches"
| "matches_loop tab ctxt (word # rest) matches =
     (case tab of
        None \<Rightarrow> Inl TypeError
      | Some c \<Rightarrow>
          (if counter_get c (ctxt @ [word]) > 0
           then matches_loop tab ctxt rest
                  (AList.update word (counter_get c (ctxt @ [word])) matches)
           else matches_loop tab ctxt rest matches))"

text \<open>
  \<^verbatim>\<open>sum(matches.values(), 0.0)\<close>: a left fold from the float 0.0. Here, and in
  \<open>comprehension\<close>, the doubles are real numbers and no operation rounds; the section on
  doubles below has the same steps with the rounding.
\<close>

definition total_count :: "(token \<times> int) list \<Rightarrow> real" where
  "total_count matches = foldl (\<lambda>acc v. acc + real_of_int v) 0 (map snd matches)"

text \<open>
  \<^verbatim>\<open>{k: v / total_count for k, v in matches.items()}\<close>: dividing by the float 0.0
  raises \<open>ZeroDivisionError\<close>, for the first item the comprehension reaches.
\<close>

fun comprehension ::
  "real \<Rightarrow> (token \<times> int) list \<Rightarrow> (token \<times> real) list \<Rightarrow> error + (token \<times> real) list" where
  "comprehension tot [] acc = Inr acc"
| "comprehension tot ((k, v) # items) acc =
     (if tot = 0 then Inl ZeroDivisionError
      else comprehension tot items (AList.update k (real_of_int v / tot) acc))"

definition truncate_context :: "int \<Rightarrow> token list \<Rightarrow> token list" where
  "truncate_context n ctxt =
     (if int (length ctxt) \<ge> n then slice_from (- n + 1) ctxt else ctxt)"

definition predict :: "NgramModel \<Rightarrow> token list \<Rightarrow> error + (token \<times> real) list" where
  "predict self ctxt =
     (if int (length ctxt) < self_n self - 1 then Inl ValueError
      else
        (case alphabet self of
           None \<Rightarrow> Inl TypeError
         | Some words \<Rightarrow>
             (case matches_loop (ngrams self) (truncate_context (self_n self) ctxt) words [] of
                Inl e \<Rightarrow> Inl e
              | Inr matches \<Rightarrow> comprehension (total_count matches) matches [])))"

text \<open>
  \<open>predict_str\<close>: the spaCy pipeline is outside the repository; \<open>nlp\<close> is the function
  from a text to the texts of its tokens.
\<close>

definition predict_str ::
  "(string \<Rightarrow> token list) \<Rightarrow> NgramModel \<Rightarrow> string \<Rightarrow> error + (token \<times> real) list" where
  "predict_str nlp self context_str = predict self (nlp context_str)"

section \<open>Cross entropy (notebook cell 7, function cross\_ent)\<close>

text \<open>
  \<open>np.log2\<close> is the real logarithm to base 2 and the accumulator a real number: rounding
  is not modelled. The final \<^verbatim>\<open>cross_ent /= count\<close> divides by the integer \<open>count\<close>
  and raises \<open>ZeroDivisionError\<close> when it is 0. After a raise the position of the
  generator is not reported.
\<close>

fun cross_ent_loop ::
  "NgramModel \<Rightarrow> int \<Rightarrow> token list list \<Rightarrow> real \<Rightarrow> nat \<Rightarrow> error + real \<times> nat" where
  "cross_ent_loop model n [] ce cnt = Inr (ce, cnt)"
| "cross_ent_loop model n (ngram # rest) ce cnt =
     (case getitem ngram (n - 1) of
        Inl e \<Rightarrow> Inl e
      | Inr pred \<Rightarrow>
          (case predict model (slice_to (n - 1) ngram) of
             Inl e \<Rightarrow> Inl e
           | Inr distr \<Rightarrow>
               (case map_of distr pred of
                  Some pr \<Rightarrow> cross_ent_loop model n rest (ce - log 2 pr) (cnt + 1)
                | None \<Rightarrow> cross_ent_loop model n rest ce cnt)))"

definition cross_ent ::
  "rng \<Rightarrow> NgramModel \<Rightarrow> Corpus \<Rightarrow> int \<Rightarrow> bool \<Rightarrow> nat \<Rightarrow> error + (real \<times> nat) \<times> nat" where
  "cross_ent rnd model corpus n test k =
     (case get_ngrams rnd corpus n test k of
        (gs, k') \<Rightarrow>
          (case cross_ent_loop model n gs 0 0 of
             Inl e \<Rightarrow> Inl e
           | Inr (ce, cnt) \<Rightarrow>
               if cnt = 0 then Inl ZeroDivisionError
               else Inr ((ce / real cnt, cnt), k')))"

section \<open>The arithmetic of predict in doubles\<close>

text \<open>
  \<open>total_count\<close> and \<open>comprehension\<close> above compute with real numbers. The code computes
  with doubles: \<^verbatim>\<open>sum(matches.values(), 0.0)\<close> turns each count into a double and adds
  it to the accumulator, and \<^verbatim>\<open>v / total_count\<close> turns the count into a double and
  divides; each of these operations returns its exact result rounded. The rounding is
  the parameter \<open>fl\<close>. \<open>rounds u fl\<close> says that it has a relative error of at most \<open>u\<close>,
  as the rounding to nearest of binary64 has for \<open>u = 2^-53\<close> on every result that neither
  overflows nor underflows; the counts, their sums and the quotients of \<open>predict\<close> stay in
  that range for any corpus that fits a machine. With \<open>fl\<close> the identity these are the
  definitions above.
\<close>

definition rounds :: "real \<Rightarrow> (real \<Rightarrow> real) \<Rightarrow> bool" where
  "rounds u fl = (0 \<le> u \<and> u < 1 \<and> (\<forall>x. \<bar>fl x - x\<bar> \<le> u * \<bar>x\<bar>))"

definition total_count_fl :: "(real \<Rightarrow> real) \<Rightarrow> (token \<times> int) list \<Rightarrow> real" where
  "total_count_fl fl matches =
     foldl (\<lambda>acc v. fl (acc + fl (real_of_int v))) 0 (map snd matches)"

fun comprehension_fl ::
  "(real \<Rightarrow> real) \<Rightarrow> real \<Rightarrow> (token \<times> int) list \<Rightarrow> (token \<times> real) list \<Rightarrow>
   error + (token \<times> real) list" where
  "comprehension_fl fl tot [] acc = Inr acc"
| "comprehension_fl fl tot ((k, v) # items) acc =
     (if tot = 0 then Inl ZeroDivisionError
      else comprehension_fl fl tot items
             (AList.update k (fl (fl (real_of_int v) / tot)) acc))"

definition predict_fl ::
  "(real \<Rightarrow> real) \<Rightarrow> NgramModel \<Rightarrow> token list \<Rightarrow> error + (token \<times> real) list" where
  "predict_fl fl self ctxt =
     (if int (length ctxt) < self_n self - 1 then Inl ValueError
      else
        (case alphabet self of
           None \<Rightarrow> Inl TypeError
         | Some words \<Rightarrow>
             (case matches_loop (ngrams self) (truncate_context (self_n self) ctxt) words [] of
                Inl e \<Rightarrow> Inl e
              | Inr matches \<Rightarrow>
                  comprehension_fl fl (total_count_fl fl matches) matches [])))"

text \<open>\<^verbatim>\<open>sum(d.values())\<close> on the returned dictionary: a left fold of double additions.\<close>

definition float_sum :: "(real \<Rightarrow> real) \<Rightarrow> real list \<Rightarrow> real" where
  "float_sum fl xs = foldl (\<lambda>acc x. fl (acc + x)) 0 xs"

section \<open>Statements of the specification, and sample data\<close>

text \<open>The specification's truncation of a context: its last \<open>m\<close> tokens.\<close>

definition last_tokens :: "nat \<Rightarrow> 'a list \<Rightarrow> 'a list" where
  "last_tokens m xs = drop (length xs - m) xs"

text \<open>
  The specification's reading of \<open>sentences(test)\<close>: one draw for each sentence, which
  decides alone whether the sentence is included.
\<close>

fun one_draw_sentences :: "rng \<Rightarrow> real \<Rightarrow> bool \<Rightarrow> sentence list \<Rightarrow> nat \<Rightarrow> sentence list \<times> nat" where
  "one_draw_sentences rnd p test [] k = ([], k)"
| "one_draw_sentences rnd p test (sent # rest) k =
     (case one_draw_sentences rnd p test rest (Suc k) of
        (out, k') \<Rightarrow>
          if (rnd k \<ge> p \<and> \<not> test) \<or> (rnd k < p \<and> test) then (sent # out, k')
          else (out, k'))"

text \<open>
  The position in the sequence of draws of the first draw made for sentence number \<open>i\<close>
  when \<open>get_sentences\<close> runs with \<open>test = False\<close> from position \<open>k\<close>: a sentence whose
  first draw is below \<open>p\<close> uses up a second draw.
\<close>

fun first_draw :: "rng \<Rightarrow> real \<Rightarrow> nat \<Rightarrow> nat \<Rightarrow> nat" where
  "first_draw rnd p k 0 = k"
| "first_draw rnd p k (Suc i) =
     first_draw rnd p k i + (if rnd (first_draw rnd p k i) \<ge> p then 1 else 2)"

text \<open>
  A trained model: what \<open>learn\<close> leaves behind for an order of at least 1. Both fields
  are set, every key of the count table is an n-gram of the model's order with a positive
  count, and the alphabet has no repetition.
\<close>

definition trained :: "NgramModel \<Rightarrow> bool" where
  "trained m =
     (case ngrams m of
        None \<Rightarrow> False
      | Some c \<Rightarrow>
          (case alphabet m of
             None \<Rightarrow> False
           | Some a \<Rightarrow>
               1 \<le> self_n m \<and> distinct a \<and>
               (\<forall>g \<in> dom c. int (length g) = self_n m \<and> 0 < counter_get c g)))"

text \<open>The n-gram that the specification looks up for a word after a context.\<close>

definition spec_count :: "NgramModel \<Rightarrow> token list \<Rightarrow> token \<Rightarrow> int" where
  "spec_count m ctxt w =
     counter_get (the (ngrams m)) (last_tokens (nat (self_n m - 1)) ctxt @ [w])"

definition draws_half :: rng where
  "draws_half i = 1 / 2"

definition draws_low_then_half :: rng where
  "draws_low_then_half i = (if i = 0 then 1 / 20 else 1 / 2)"

definition corpus_abc :: Corpus where
  "corpus_abc = \<lparr>test_percentage = 1 / 10,
     doc = [[''a'', ''b'', ''c'', ''d'', ''e'', ''f'', ''g'', ''h'', ''i'', ''j'']]\<rparr>"

definition corpus_aaa :: Corpus where
  "corpus_aaa = \<lparr>test_percentage = 1 / 10,
     doc = [[''a'', ''a'', ''a'', ''a'', ''a'', ''a'', ''a'', ''a'', ''a'', ''a'']]\<rparr>"

text \<open>
  The probability that the model gives to the last token of an n-gram after its first
  tokens, when that token is a key of the distribution that \<open>predict\<close> returns.
\<close>

definition target_probability :: "NgramModel \<Rightarrow> token list \<Rightarrow> real option" where
  "target_probability m g =
     (case predict m (butlast g) of Inl e \<Rightarrow> None | Inr d \<Rightarrow> map_of d (last g))"

text \<open>Two models that \<open>learn\<close> builds: of order 3 on ten distinct tokens, of order 1 on ten equal ones.\<close>

definition trigram_model :: NgramModel where
  "trigram_model = fst (learn draws_half (init_NgramModel 3) corpus_abc 0)"

definition unigram_model :: NgramModel where
  "unigram_model = fst (learn draws_half (init_NgramModel 1) corpus_aaa 0)"

text \<open>
  A rounding with relative error 1/1024, which always rounds up in absolute value, and
  the model of order 1 that \<open>learn\<close> builds on the ten distinct tokens: its prediction for
  the empty context has ten keys.
\<close>

definition fl_up :: "real \<Rightarrow> real" where
  "fl_up x = x + x / 1024"

definition unigram_abc_model :: NgramModel where
  "unigram_abc_model = fst (learn draws_half (init_NgramModel 1) corpus_abc 0)"

section \<open>predict on a store of objects\<close>

text \<open>
  To say what \<open>predict\<close> leaves unchanged, the same code is written once more over a
  store: the model object \<open>self\<close>, the list objects by address, and the next free
  address. The parameter \<open>ctxt\<close> is the address of the caller's list. The slice
  \<^verbatim>\<open>context[-self.n + 1:]\<close> makes a new list object and binds the local name to it;
  every read \<^verbatim>\<open>self.ngrams[...]\<close> goes through \<open>getitem_Counter\<close> and stores back the
  table that it returns.
\<close>

record pystate =
  model_obj :: NgramModel
  lists :: "nat \<Rightarrow> token list"
  next_free :: nat

definition new_list :: "token list \<Rightarrow> pystate \<Rightarrow> nat \<times> pystate" where
  "new_list xs st =
     (next_free st,
      st\<lparr>lists := (lists st)(next_free st := xs), next_free := Suc (next_free st)\<rparr>)"

fun matches_loop_obj ::
  "nat \<Rightarrow> token list \<Rightarrow> (token \<times> int) list \<Rightarrow> pystate \<Rightarrow> (error + (token \<times> int) list) \<times> pystate" where
  "matches_loop_obj ctxt [] matches st = (Inr matches, st)"
| "matches_loop_obj ctxt (word # rest) matches st =
     (case ngrams (model_obj st) of
        None \<Rightarrow> (Inl TypeError, st)
      | Some c \<Rightarrow>
          (case getitem_Counter c (lists st ctxt @ [word]) of
             (cnt, c') \<Rightarrow>
               if cnt > 0
               then matches_loop_obj ctxt rest (AList.update word cnt matches)
                      (st\<lparr>model_obj := (model_obj st)\<lparr>ngrams := Some c'\<rparr>\<rparr>)
               else matches_loop_obj ctxt rest matches
                      (st\<lparr>model_obj := (model_obj st)\<lparr>ngrams := Some c'\<rparr>\<rparr>)))"

definition predict_obj :: "nat \<Rightarrow> pystate \<Rightarrow> (error + (token \<times> real) list) \<times> pystate" where
  "predict_obj ctxt st =
     (if int (length (lists st ctxt)) < self_n (model_obj st) - 1 then (Inl ValueError, st)
      else
        (case (if int (length (lists st ctxt)) \<ge> self_n (model_obj st)
               then new_list (slice_from (- self_n (model_obj st) + 1) (lists st ctxt)) st
               else (ctxt, st)) of
           (ctxt', st1) \<Rightarrow>
             (case alphabet (model_obj st1) of
                None \<Rightarrow> (Inl TypeError, st1)
              | Some words \<Rightarrow>
                  (case matches_loop_obj ctxt' words [] st1 of
                     (Inl e, st2) \<Rightarrow> (Inl e, st2)
                   | (Inr matches, st2) \<Rightarrow>
                       (comprehension (total_count matches) matches [], st2)))))"

definition predict_str_obj ::
  "(string \<Rightarrow> token list) \<Rightarrow> string \<Rightarrow> pystate \<Rightarrow> (error + (token \<times> real) list) \<times> pystate" where
  "predict_str_obj nlp context_str st =
     (case new_list (nlp context_str) st of (ctxt, st1) \<Rightarrow> predict_obj ctxt st1)"

text \<open>A store that holds the order-3 model and one list, the caller's context, at address 0.\<close>

definition sample_store :: pystate where
  "sample_store =
     \<lparr>model_obj = trigram_model, lists = (\<lambda>b. [])(0 := [''x'', ''a'', ''b'']), next_free = 1\<rparr>"

section \<open>Enumeration of n-grams\<close>

lemma window_take_drop:
  assumes "pos + nat n \<le> length sent"
  shows "window n sent pos = take (nat n) (drop pos sent)"
proof (rule nth_equalityI)
  show "length (window n sent pos) = length (take (nat n) (drop pos sent))"
    using assms by (simp add: window_def)
next
  fix i assume "i < length (window n sent pos)"
  then have "i < nat n" by (simp add: window_def)
  then show "window n sent pos ! i = take (nat n) (drop pos sent) ! i"
    using assms by (simp add: window_def)
qed

lemma length_window: "length (window n sent pos) = nat n"
  by (simp add: window_def)

lemma positions_loop_upt:
  assumes "1 \<le> n"
  shows "positions_loop n sent [i..<length sent] =
         map (\<lambda>pos. take (nat n) (drop pos sent)) [i..<length sent + 1 - nat n]"
proof (induction "length sent - i" arbitrary: i)
  case 0
  then have le: "length sent \<le> i" by simp
  then have e1: "[i..<length sent] = []" by simp
  have "length sent + 1 - nat n \<le> i" using le assms by linarith
  then have e2: "[i..<length sent + 1 - nat n] = []" by simp
  show ?case unfolding e1 e2 by simp
next
  case (Suc d)
  then have lt: "i < length sent" by simp
  then have up: "[i..<length sent] = i # [Suc i..<length sent]" by (simp add: upt_conv_Cons)
  show ?case
  proof (cases "int (length sent) - int i < n")
    case True
    then have "[i..<length sent + 1 - nat n] = []" using assms by simp
    with True up show ?thesis by simp
  next
    case False
    then have fit: "i + nat n \<le> length sent" using assms by linarith
    then have "i < length sent + 1 - nat n" using assms by linarith
    then have up2: "[i..<length sent + 1 - nat n] = i # [Suc i..<length sent + 1 - nat n]"
      by (simp add: upt_conv_Cons)
    have ih: "positions_loop n sent [Suc i..<length sent] =
              map (\<lambda>pos. take (nat n) (drop pos sent)) [Suc i..<length sent + 1 - nat n]"
      using Suc by simp
    show ?thesis using False up up2 ih window_take_drop [OF fit] by simp
  qed
qed

lemma positions_loop_length:
  "g \<in> set (positions_loop n sent ps) \<Longrightarrow> length g = nat n"
  by (induction ps) (auto simp: length_window split: if_splits)

lemma sentence_ngrams_length: "g \<in> set (sentence_ngrams n sent) \<Longrightarrow> length g = nat n"
  by (auto simp: sentence_ngrams_def positions_loop_length split: if_splits)

lemma get_ngrams_length: "g \<in> set (fst (get_ngrams rnd c n test k)) \<Longrightarrow> length g = nat n"
  by (auto simp: get_ngrams_def sentence_ngrams_length split: prod.splits)

lemma get_ngrams_enumeration:
  assumes "1 \<le> n"
  shows "get_ngrams rnd c n test k =
         (concat (map (\<lambda>s. if length s < 10 then []
                           else map (\<lambda>pos. take (nat n) (drop pos s)) [0..<length s + 1 - nat n])
                      (fst (get_sentences rnd c test k))),
          snd (get_sentences rnd c test k))"
proof -
  have "sentence_ngrams n = (\<lambda>s. if length s < 10 then []
                           else map (\<lambda>pos. take (nat n) (drop pos s)) [0..<length s + 1 - nat n])"
    using positions_loop_upt [OF assms, of _ 0] by (auto simp: sentence_ngrams_def fun_eq_iff)
  then show ?thesis by (simp add: get_ngrams_def split: prod.splits)
qed

text \<open>Every index that \<open>window\<close> reads after the guard of the loop is inside the sentence.\<close>

lemma window_reads_in_range:
  "\<not> int (length sent) - int pos < n \<Longrightarrow> i < nat n \<Longrightarrow> pos + i < length sent"
  by linarith

section \<open>The random split and the count table\<close>

lemma sentences_loop_test:
  "sentences_loop rnd p True ss (k + 2 * j) =
     (map snd (filter (\<lambda>(i, s). rnd (k + 2 * i + 1) < p) (enumerate j ss)),
      k + 2 * (j + length ss))"
proof (induction ss arbitrary: j)
  case Nil
  show ?case by simp
next
  case (Cons s ss)
  have "sentences_loop rnd p True ss (Suc (Suc (k + 2 * j))) =
        sentences_loop rnd p True ss (k + 2 * Suc j)" by simp
  then show ?case using Cons [of "Suc j"] by (simp add: np_random_def)
qed

lemma sentences_loop_train:
  "sentences_loop rnd p False ss (first_draw rnd p k j) =
     (map snd (filter (\<lambda>(i, s). rnd (first_draw rnd p k i) \<ge> p) (enumerate j ss)),
      first_draw rnd p k (j + length ss))"
proof (induction ss arbitrary: j)
  case Nil
  show ?case by simp
next
  case (Cons s ss)
  let ?d = "first_draw rnd p k j"
  note ih = Cons [of "Suc j"]
  show ?case
  proof (cases "p \<le> rnd ?d")
    case True
    then have "first_draw rnd p k (Suc j) = Suc ?d" by simp
    with ih True show ?thesis by (simp add: np_random_def del: first_draw.simps(2))
  next
    case False
    then have "first_draw rnd p k (Suc j) = Suc (Suc ?d)" by simp
    with ih False show ?thesis by (simp add: np_random_def del: first_draw.simps(2))
  qed
qed

lemma counter_get_case: "counter_get c g = (case c g of None \<Rightarrow> 0 | Some v \<Rightarrow> v)"
  by (simp add: counter_get_def getitem_Counter_def split: option.splits)

lemma getitem_Counter_frame: "snd (getitem_Counter c g) = c"
  by (simp add: getitem_Counter_def split: option.splits)

lemma counter_update_get:
  "counter_get (counter_update c gs) g = counter_get c g + int (count_list gs g)"
  by (induction gs arbitrary: c) (auto simp: counter_get_case)

lemma counter_update_dom: "dom (counter_update c gs) = dom c \<union> set gs"
  by (induction gs arbitrary: c) auto

lemma counter_get_empty: "counter_get Map.empty g = 0"
  by (simp add: counter_get_case)

lemma new_Counter_get: "counter_get (new_Counter gs) g = int (count_list gs g)"
  by (simp add: new_Counter_def counter_update_get counter_get_empty)

lemma new_Counter_dom: "dom (new_Counter gs) = set gs"
  by (simp add: new_Counter_def counter_update_dom)

lemma learn_trained:
  assumes "1 \<le> self_n self"
  shows "trained (fst (learn rnd self corpus k))"
proof -
  obtain gs k' where g: "get_ngrams rnd corpus (self_n self) False k = (gs, k')"
    by (cases "get_ngrams rnd corpus (self_n self) False k")
  have len: "\<And>x. x \<in> set gs \<Longrightarrow> int (length x) = self_n self"
    using get_ngrams_length [of _ rnd corpus "self_n self" False k] g assms by simp
  have pos: "\<And>x. x \<in> set gs \<Longrightarrow> 0 < counter_get (new_Counter gs) x"
    using count_list_0_iff [of gs] by (simp add: new_Counter_get) (metis not_gr_zero)
  show ?thesis
    using assms len pos by (simp add: learn_def g trained_def new_Counter_dom)
qed

section \<open>The loop and the normalisation of predict\<close>

lemma update_fresh: "k \<notin> fst ` set al \<Longrightarrow> AList.update k v al = al @ [(k, v)]"
  by (induction al) auto

lemma matches_loop_Some:
  "\<exists>ms. matches_loop (Some c) ctxt ws acc = Inr ms \<and>
        map_of ms = (\<lambda>w. if w \<in> set ws \<and> 0 < counter_get c (ctxt @ [w])
                           then Some (counter_get c (ctxt @ [w])) else map_of acc w) \<and>
        (distinct (map fst acc) \<longrightarrow> distinct (map fst ms))"
proof (induction ws arbitrary: acc)
  case Nil
  show ?case by simp
next
  case (Cons w ws)
  show ?case
  proof (cases "0 < counter_get c (ctxt @ [w])")
    case True
    obtain ms where ms: "matches_loop (Some c) ctxt ws (AList.update w (counter_get c (ctxt @ [w])) acc) = Inr ms"
      and m: "map_of ms = (\<lambda>x. if x \<in> set ws \<and> 0 < counter_get c (ctxt @ [x])
                           then Some (counter_get c (ctxt @ [x]))
                           else map_of (AList.update w (counter_get c (ctxt @ [w])) acc) x)"
      and d: "distinct (map fst (AList.update w (counter_get c (ctxt @ [w])) acc)) \<longrightarrow> distinct (map fst ms)"
      using Cons [of "AList.update w (counter_get c (ctxt @ [w])) acc"] by blast
    have "map_of ms = (\<lambda>x. if x \<in> set (w # ws) \<and> 0 < counter_get c (ctxt @ [x])
                           then Some (counter_get c (ctxt @ [x])) else map_of acc x)"
      using True by (auto simp: m update_conv' fun_eq_iff)
    moreover have "distinct (map fst acc) \<longrightarrow> distinct (map fst ms)"
      using d by (simp add: distinct_update)
    ultimately show ?thesis using True ms by simp
  next
    case False
    obtain ms where ms: "matches_loop (Some c) ctxt ws acc = Inr ms"
      and m: "map_of ms = (\<lambda>x. if x \<in> set ws \<and> 0 < counter_get c (ctxt @ [x])
                           then Some (counter_get c (ctxt @ [x])) else map_of acc x)"
      and d: "distinct (map fst acc) \<longrightarrow> distinct (map fst ms)"
      using Cons [of acc] by blast
    have "map_of ms = (\<lambda>x. if x \<in> set (w # ws) \<and> 0 < counter_get c (ctxt @ [x])
                           then Some (counter_get c (ctxt @ [x])) else map_of acc x)"
      using False by (auto simp: m fun_eq_iff)
    then show ?thesis using False ms d by simp
  qed
qed

lemma foldl_add_real: "foldl (\<lambda>acc v. acc + real_of_int v) a vs = a + real_of_int (sum_list vs)"
  by (induction vs arbitrary: a) auto

lemma total_count_sum: "total_count ms = real_of_int (sum_list (map snd ms))"
  by (simp add: total_count_def foldl_add_real)

lemma sum_list_alist:
  "distinct (map fst ms) \<Longrightarrow>
   sum_list (map snd ms) = (\<Sum>k \<in> fst ` set ms. the (map_of ms k))"
proof (induction ms)
  case Nil
  show ?case by simp
next
  case (Cons kv ms)
  obtain k v where kv: "kv = (k, v)" by (cases kv)
  from Cons.prems kv have notin: "k \<notin> fst ` set ms" and dist: "distinct (map fst ms)" by auto
  have "(\<Sum>x \<in> fst ` set ms. the (map_of (kv # ms) x)) = (\<Sum>x \<in> fst ` set ms. the (map_of ms x))"
    using notin kv by (intro sum.cong) auto
  then show ?case using Cons.IH [OF dist] notin kv by simp
qed

lemma comprehension_map:
  assumes "tot \<noteq> 0"
  shows "distinct (map fst items) \<Longrightarrow> fst ` set acc \<inter> fst ` set items = {} \<Longrightarrow>
         comprehension tot items acc =
           Inr (acc @ map (\<lambda>(k, v). (k, real_of_int v / tot)) items)"
proof (induction items arbitrary: acc)
  case Nil
  show ?case by simp
next
  case (Cons kv items)
  obtain k v where kv: "kv = (k, v)" by (cases kv)
  have fresh: "k \<notin> fst ` set acc" using Cons.prems kv by auto
  have d: "distinct (map fst items)" using Cons.prems by simp
  have disj: "fst ` set (acc @ [(k, real_of_int v / tot)]) \<inter> fst ` set items = {}"
    using Cons.prems kv by auto
  show ?case
    using Cons.IH [OF d disj] assms kv by (simp add: update_fresh [OF fresh])
qed

section \<open>What predict returns\<close>

lemma sum_list_pos_int:
  "xs \<noteq> [] \<Longrightarrow> (\<And>x. x \<in> set xs \<Longrightarrow> 0 < x) \<Longrightarrow> 0 < sum_list (xs :: int list)"
proof (induction xs)
  case Nil
  then show ?case by simp
next
  case (Cons x xs)
  have "0 \<le> sum_list xs" using Cons.prems(2) by (intro sum_list_nonneg) (simp add: less_imp_le)
  moreover have "0 < x" using Cons.prems(2) by simp
  ultimately show ?case by simp
qed

lemma comprehension_empty: "comprehension tot [] [] = Inr []"
  by simp

lemma matches_loop_start:
  "\<exists>ms. matches_loop (Some c) ctxt ws [] = Inr ms \<and>
        map_of ms = (\<lambda>w. if w \<in> set ws \<and> 0 < counter_get c (ctxt @ [w])
                           then Some (counter_get c (ctxt @ [w])) else None) \<and>
        distinct (map fst ms)"
  using matches_loop_Some [of c ctxt ws "[]"] by (simp cong: if_cong)

lemma predict_matches:
  assumes c: "ngrams m = Some c" and a: "alphabet m = Some a"
    and len: "self_n m - 1 \<le> int (length ctxt)"
  shows "\<exists>ms. distinct (map fst ms) \<and>
           map_of ms = (\<lambda>w. if w \<in> set a \<and> 0 < counter_get c (truncate_context (self_n m) ctxt @ [w])
                            then Some (counter_get c (truncate_context (self_n m) ctxt @ [w]))
                            else None) \<and>
           (ms \<noteq> [] \<longrightarrow> 0 < total_count ms) \<and>
           predict m ctxt = Inr (map (\<lambda>(k, v). (k, real_of_int v / total_count ms)) ms)"
proof -
  let ?t = "truncate_context (self_n m) ctxt"
  from matches_loop_start [of c ?t a]
  obtain ms where run: "matches_loop (Some c) ?t a [] = Inr ms"
    and mp: "map_of ms = (\<lambda>w. if w \<in> set a \<and> 0 < counter_get c (?t @ [w])
                            then Some (counter_get c (?t @ [w])) else None)"
    and d: "distinct (map fst ms)" by (elim exE conjE)
  note dist = d
  have pos: "0 < v" if "v \<in> set (map snd ms)" for v
  proof -
    from that obtain k where "(k, v) \<in> set ms" by auto
    then have "map_of ms k = Some v" using dist by simp
    then show ?thesis by (auto simp: mp split: if_splits)
  qed
  have tot: "ms \<noteq> [] \<longrightarrow> 0 < total_count ms"
    using sum_list_pos_int [of "map snd ms"] pos by (auto simp: total_count_sum)
  have "predict m ctxt = Inr (map (\<lambda>(k, v). (k, real_of_int v / total_count ms)) ms)"
  proof (cases "ms = []")
    case True
    then show ?thesis using len c a run by (simp add: predict_def)
  next
    case False
    then have nz: "total_count ms \<noteq> 0" using tot by simp
    show ?thesis
      using len c a run comprehension_map [OF nz dist, of "[]"] by (simp add: predict_def)
  qed
  then show ?thesis using dist mp tot by auto
qed

lemma sum_list_divide_real:
  "sum_list (map (\<lambda>(k, v). real_of_int v / t) ms) = real_of_int (sum_list (map snd ms)) / t"
  by (induction ms) (auto simp: add_divide_distrib)

lemma matches_loop_error: "matches_loop tab ctxt ws acc = Inl e \<Longrightarrow> e = TypeError"
  by (induction ws arbitrary: acc) (auto split: option.splits if_splits)

lemma matches_loop_None: "matches_loop None ctxt ws acc = Inr ms \<Longrightarrow> ws = [] \<and> ms = acc"
  by (cases ws) auto

lemma comprehension_error: "comprehension tot items acc = Inl e \<Longrightarrow> e = ZeroDivisionError"
  by (induction tot items acc rule: comprehension.induct) (auto split: if_splits)

lemma truncate_context_last:
  assumes "1 \<le> n" and "n - 1 \<le> int (length ctxt)" and "2 \<le> n \<or> ctxt = []"
  shows "truncate_context n ctxt = last_tokens (nat (n - 1)) ctxt"
proof (cases "n \<le> int (length ctxt)")
  case True
  then have "2 \<le> n" using assms by auto
  then have "nat (max (int (length ctxt) + (- n + 1)) 0) = length ctxt - nat (n - 1)"
    using True by linarith
  then show ?thesis using True \<open>2 \<le> n\<close> by (simp add: truncate_context_def slice_from_def last_tokens_def)
next
  case False
  then have "length ctxt = nat (n - 1)" using assms by linarith
  then show ?thesis using False by (simp add: truncate_context_def last_tokens_def)
qed

lemma truncate_context_order_one: "ctxt \<noteq> [] \<Longrightarrow> truncate_context 1 ctxt = ctxt"
  by (cases ctxt) (simp_all add: truncate_context_def slice_from_def)

section \<open>Rounding: bounds for the total and for a sum of doubles\<close>

lemma roundsD:
  assumes "rounds u fl"
  shows "0 \<le> u" and "u < 1" and "\<bar>fl x - x\<bar> \<le> u * \<bar>x\<bar>"
  using assms by (simp_all add: rounds_def)

lemma rounds_bounds:
  assumes "rounds u fl" and "0 \<le> x"
  shows "(1 - u) * x \<le> fl x" and "fl x \<le> (1 + u) * x" and "0 \<le> fl x"
proof -
  have "\<bar>fl x - x\<bar> \<le> u * \<bar>x\<bar>" using assms(1) by (rule roundsD)
  then have d: "\<bar>fl x - x\<bar> \<le> u * x" using assms(2) by simp
  have e1: "(1 - u) * x = x - u * x" by (simp only: left_diff_distrib mult_1)
  have e2: "(1 + u) * x = x + u * x" by (simp only: distrib_right mult_1)
  show l: "(1 - u) * x \<le> fl x" using d e1 by linarith
  show "fl x \<le> (1 + u) * x" using d e2 by linarith
  have "0 \<le> (1 - u) * x" using roundsD(2) [OF assms(1)] assms(2) by simp
  with l show "0 \<le> fl x" by linarith
qed

lemma rounds_pos:
  assumes "rounds u fl" and "0 < x"
  shows "0 < fl x"
proof -
  have "0 < (1 - u) * x" using roundsD(2) [OF assms(1)] assms(2) by simp
  moreover have "0 \<le> x" using assms(2) by simp
  then have "(1 - u) * x \<le> fl x" by (rule rounds_bounds(1) [OF assms(1)])
  ultimately show ?thesis by linarith
qed

lemma rounds_exact: "rounds 0 (\<lambda>x. x)"
  by (simp add: rounds_def)

lemma fold_fl_bounds:
  assumes r: "rounds u fl"
  shows "\<forall>x \<in> set xs. 0 \<le> x \<Longrightarrow> 0 \<le> a \<Longrightarrow>
         (1 - u) ^ length xs * (a + sum_list xs) \<le> foldl (\<lambda>acc x. fl (acc + x)) a xs \<and>
         foldl (\<lambda>acc x. fl (acc + x)) a xs \<le> (1 + u) ^ length xs * (a + sum_list xs)"
proof (induction xs arbitrary: a)
  case Nil
  show ?case by simp
next
  case (Cons x xs)
  let ?n = "length xs" and ?S = "sum_list xs"
  let ?a = "fl (a + x)"
  have u: "0 \<le> u" "u < 1" using roundsD [OF r] by auto
  have ax: "0 \<le> a + x" using Cons.prems by simp
  have S: "0 \<le> ?S" using Cons.prems by (intro sum_list_nonneg) simp
  have lo: "(1 - u) * (a + x) \<le> ?a" and hi: "?a \<le> (1 + u) * (a + x)" and nn: "0 \<le> ?a"
    using rounds_bounds [OF r ax] by auto
  have rest: "\<forall>y \<in> set xs. 0 \<le> y" using Cons.prems by simp
  from Cons.IH [OF rest nn]
  have ih1: "(1 - u) ^ ?n * (?a + ?S) \<le> foldl (\<lambda>acc x. fl (acc + x)) ?a xs"
    and ih2: "foldl (\<lambda>acc x. fl (acc + x)) ?a xs \<le> (1 + u) ^ ?n * (?a + ?S)" by auto
  have "(1 - u) * (a + x + ?S) \<le> ?a + ?S"
  proof -
    have "(1 - u) * ?S \<le> 1 * ?S" using u S by (intro mult_right_mono) auto
    moreover have "(1 - u) * (a + x + ?S) = (1 - u) * (a + x) + (1 - u) * ?S"
      by (rule distrib_left)
    ultimately show ?thesis using lo by linarith
  qed
  then have s1: "(1 - u) ^ ?n * ((1 - u) * (a + x + ?S)) \<le> (1 - u) ^ ?n * (?a + ?S)"
    using u by (intro mult_left_mono) auto
  have "(1 - u) ^ Suc ?n * (a + x + ?S) = (1 - u) ^ ?n * ((1 - u) * (a + x + ?S))"
    by (simp only: power_Suc2 mult.assoc)
  also note s1
  also note ih1
  finally have l: "(1 - u) ^ Suc ?n * (a + x + ?S) \<le> foldl (\<lambda>acc x. fl (acc + x)) ?a xs" .
  have "?a + ?S \<le> (1 + u) * (a + x + ?S)"
  proof -
    have "1 * ?S \<le> (1 + u) * ?S" using u S by (intro mult_right_mono) auto
    moreover have "(1 + u) * (a + x + ?S) = (1 + u) * (a + x) + (1 + u) * ?S"
      by (rule distrib_left)
    ultimately show ?thesis using hi by linarith
  qed
  then have s2: "(1 + u) ^ ?n * (?a + ?S) \<le> (1 + u) ^ ?n * ((1 + u) * (a + x + ?S))"
    using u by (intro mult_left_mono) auto
  note ih2
  also note s2
  also have "(1 + u) ^ ?n * ((1 + u) * (a + x + ?S)) = (1 + u) ^ Suc ?n * (a + x + ?S)"
    by (simp only: power_Suc2 mult.assoc)
  finally have h: "foldl (\<lambda>acc x. fl (acc + x)) ?a xs \<le> (1 + u) ^ Suc ?n * (a + x + ?S)" .
  have e: "length (x # xs) = Suc ?n" "a + sum_list (x # xs) = a + x + ?S"
    "foldl (\<lambda>acc x. fl (acc + x)) a (x # xs) = foldl (\<lambda>acc x. fl (acc + x)) ?a xs"
    by simp_all
  show ?case unfolding e using l h by blast
qed

lemma sum_list_scaled:
  "sum_list (map (\<lambda>p. c * real_of_int (snd p)) ms) = c * real_of_int (sum_list (map snd ms))"
  by (induction ms) (auto simp: algebra_simps)

lemma total_count_fl_fold:
  "total_count_fl fl ms =
     foldl (\<lambda>acc x. fl (acc + x)) 0 (map (\<lambda>p. fl (real_of_int (snd p))) ms)"
  by (simp add: total_count_fl_def foldl_map)

lemma total_count_fl_bounds:
  assumes r: "rounds u fl" and pos: "\<forall>p \<in> set ms. 0 < snd p"
  shows "(1 - u) ^ (length ms + 1) * real_of_int (sum_list (map snd ms)) \<le> total_count_fl fl ms"
    and "total_count_fl fl ms \<le> (1 + u) ^ (length ms + 1) * real_of_int (sum_list (map snd ms))"
proof -
  let ?xs = "map (\<lambda>p. fl (real_of_int (snd p))) ms"
  let ?T = "real_of_int (sum_list (map snd ms))"
  have u: "0 \<le> u" "u < 1" using roundsD [OF r] by auto
  have each: "(1 - u) * real_of_int (snd p) \<le> fl (real_of_int (snd p)) \<and>
              fl (real_of_int (snd p)) \<le> (1 + u) * real_of_int (snd p) \<and>
              0 \<le> fl (real_of_int (snd p))" if "p \<in> set ms" for p
  proof -
    have "0 \<le> real_of_int (snd p)" using pos that by (simp add: less_imp_le)
    from rounds_bounds [OF r this] show ?thesis by simp
  qed
  have nn: "\<forall>x \<in> set ?xs. 0 \<le> x" using each by auto
  have "sum_list (map (\<lambda>p. (1 - u) * real_of_int (snd p)) ms) \<le> sum_list ?xs"
    using each by (intro sum_list_mono) simp
  then have s1: "(1 - u) * ?T \<le> sum_list ?xs" by (simp only: sum_list_scaled)
  have "sum_list ?xs \<le> sum_list (map (\<lambda>p. (1 + u) * real_of_int (snd p)) ms)"
    using each by (intro sum_list_mono) simp
  then have s2: "sum_list ?xs \<le> (1 + u) * ?T" by (simp only: sum_list_scaled)
  from fold_fl_bounds [OF r nn, of 0]
  have f1: "(1 - u) ^ length ms * sum_list ?xs \<le> total_count_fl fl ms"
    and f2: "total_count_fl fl ms \<le> (1 + u) ^ length ms * sum_list ?xs"
    by (simp_all add: total_count_fl_fold)
  have g1: "(1 - u) ^ length ms * ((1 - u) * ?T) \<le> (1 - u) ^ length ms * sum_list ?xs"
    using s1 u by (intro mult_left_mono) auto
  have "(1 - u) ^ (length ms + 1) * ?T = (1 - u) ^ length ms * ((1 - u) * ?T)"
    by (simp only: power_add power_one_right mult.assoc)
  also note g1
  also note f1
  finally show "(1 - u) ^ (length ms + 1) * ?T \<le> total_count_fl fl ms" .
  have g2: "(1 + u) ^ length ms * sum_list ?xs \<le> (1 + u) ^ length ms * ((1 + u) * ?T)"
    using s2 u by (intro mult_left_mono) auto
  note f2
  also note g2
  also have "(1 + u) ^ length ms * ((1 + u) * ?T) = (1 + u) ^ (length ms + 1) * ?T"
    by (simp only: power_add power_one_right mult.assoc)
  finally show "total_count_fl fl ms \<le> (1 + u) ^ (length ms + 1) * ?T" .
qed

lemma comprehension_fl_map:
  assumes "tot \<noteq> 0"
  shows "distinct (map fst items) \<Longrightarrow> fst ` set acc \<inter> fst ` set items = {} \<Longrightarrow>
         comprehension_fl fl tot items acc =
           Inr (acc @ map (\<lambda>(k, v). (k, fl (fl (real_of_int v) / tot))) items)"
proof (induction items arbitrary: acc)
  case Nil
  show ?case by simp
next
  case (Cons kv items)
  obtain k v where kv: "kv = (k, v)" by (cases kv)
  have fresh: "k \<notin> fst ` set acc" using Cons.prems kv by auto
  have d: "distinct (map fst items)" using Cons.prems by simp
  have disj: "fst ` set (acc @ [(k, fl (fl (real_of_int v) / tot))]) \<inter> fst ` set items = {}"
    using Cons.prems kv by auto
  show ?case
    using Cons.IH [OF d disj] assms kv by (simp add: update_fresh [OF fresh])
qed

lemma predict_fl_exact: "predict_fl (\<lambda>x. x) m ctxt = predict m ctxt"
proof -
  have t: "total_count_fl (\<lambda>x. x) ms = total_count ms" for ms
    by (simp add: total_count_fl_def total_count_def)
  have c: "comprehension_fl (\<lambda>x. x) tot items acc = comprehension tot items acc" for tot items acc
    by (induction tot items acc rule: comprehension.induct) auto
  show ?thesis
    by (simp add: predict_fl_def predict_def t c cong: option.case_cong sum.case_cong)
qed

section \<open>predict in doubles: the result and the sum of its values\<close>

lemma predict_fl_matches:
  assumes c: "ngrams m = Some c" and a: "alphabet m = Some a"
    and len: "self_n m - 1 \<le> int (length ctxt)" and r: "rounds u fl"
  shows "\<exists>ms. distinct (map fst ms) \<and> (\<forall>p \<in> set ms. 0 < snd p) \<and>
           predict_fl fl m ctxt =
             Inr (map (\<lambda>(k, v). (k, fl (fl (real_of_int v) / total_count_fl fl ms))) ms)"
proof -
  let ?t = "truncate_context (self_n m) ctxt"
  from matches_loop_start [of c ?t a]
  obtain ms where run: "matches_loop (Some c) ?t a [] = Inr ms"
    and mp: "map_of ms = (\<lambda>w. if w \<in> set a \<and> 0 < counter_get c (?t @ [w])
                            then Some (counter_get c (?t @ [w])) else None)"
    and d: "distinct (map fst ms)" by (elim exE conjE)
  have pos: "0 < snd p" if "p \<in> set ms" for p
  proof -
    obtain k v where p: "p = (k, v)" by (cases p)
    with that d have "map_of ms k = Some v" by simp
    then show ?thesis using p by (auto simp: mp split: if_splits)
  qed
  have "predict_fl fl m ctxt =
          Inr (map (\<lambda>(k, v). (k, fl (fl (real_of_int v) / total_count_fl fl ms))) ms)"
  proof (cases "ms = []")
    case True
    then show ?thesis using len c a run by (simp add: predict_fl_def)
  next
    case False
    have "0 < sum_list (map snd ms)"
      using False pos by (intro sum_list_pos_int) auto
    then have T: "0 < real_of_int (sum_list (map snd ms))" by simp
    have "0 < (1 - u) ^ (length ms + 1)" using roundsD(2) [OF r] by simp
    then have "0 < (1 - u) ^ (length ms + 1) * real_of_int (sum_list (map snd ms))"
      using T by (rule mult_pos_pos)
    also have "\<dots> \<le> total_count_fl fl ms"
      using pos by (intro total_count_fl_bounds(1) [OF r]) simp
    finally have nz: "total_count_fl fl ms \<noteq> 0" by simp
    show ?thesis
      using len c a run comprehension_fl_map [OF nz d, of "[]" fl]
      by (simp add: predict_fl_def)
  qed
  with d pos show ?thesis by blast
qed

lemma rounded_values_bounds:
  assumes r: "rounds u fl" and pos: "\<forall>p \<in> set ms. 0 < snd p" and ne: "ms \<noteq> []"
  defines "qs \<equiv> map (\<lambda>(k, v). fl (fl (real_of_int v) / total_count_fl fl ms)) ms"
  shows "(1 - u)\<^sup>2 / (1 + u) ^ (length ms + 1) \<le> sum_list qs"
    and "sum_list qs \<le> (1 + u)\<^sup>2 / (1 - u) ^ (length ms + 1)"
    and "\<forall>q \<in> set qs. 0 \<le> q"
proof -
  let ?A = "1 - u" and ?B = "1 + u" and ?m = "length ms"
  let ?t = "total_count_fl fl ms" and ?T = "real_of_int (sum_list (map snd ms))"
  have u: "0 \<le> u" "u < 1" using roundsD [OF r] by auto
  have A: "0 < ?A" and B: "0 < ?B" using u by auto
  have "0 < sum_list (map snd ms)" using ne pos by (intro sum_list_pos_int) auto
  then have T: "0 < ?T" by simp
  have tl: "?A ^ (?m + 1) * ?T \<le> ?t" and tu: "?t \<le> ?B ^ (?m + 1) * ?T"
    using total_count_fl_bounds [OF r pos] by auto
  have "0 < ?A ^ (?m + 1) * ?T" using A T by simp
  with tl have t: "0 < ?t" by linarith
  have each: "?A\<^sup>2 / ?t * real_of_int (snd p) \<le> fl (fl (real_of_int (snd p)) / ?t) \<and>
              fl (fl (real_of_int (snd p)) / ?t) \<le> ?B\<^sup>2 / ?t * real_of_int (snd p) \<and>
              0 \<le> fl (fl (real_of_int (snd p)) / ?t)" if "p \<in> set ms" for p
  proof -
    let ?v = "real_of_int (snd p)" and ?y = "fl (real_of_int (snd p)) / ?t"
    have v: "0 \<le> ?v" using pos that by (simp add: less_imp_le)
    have v1: "?A * ?v \<le> fl ?v" and v2: "fl ?v \<le> ?B * ?v" and v3: "0 \<le> fl ?v"
      using rounds_bounds [OF r v] by auto
    have y: "0 \<le> ?y" using v3 t by simp
    have y1: "?A * ?y \<le> fl ?y" and y2: "fl ?y \<le> ?B * ?y" and y3: "0 \<le> fl ?y"
      using rounds_bounds [OF r y] by auto
    have "?A * ?v / ?t \<le> ?y" using v1 t by (simp add: divide_right_mono)
    then have "?A * (?A * ?v / ?t) \<le> ?A * ?y" using A by (intro mult_left_mono) auto
    with y1 have l: "?A * (?A * ?v / ?t) \<le> fl ?y" by linarith
    have "?y \<le> ?B * ?v / ?t" using v2 t by (simp add: divide_right_mono)
    then have "?B * ?y \<le> ?B * (?B * ?v / ?t)" using B by (intro mult_left_mono) auto
    with y2 have h: "fl ?y \<le> ?B * (?B * ?v / ?t)" by linarith
    have e1: "?A * (?A * ?v / ?t) = ?A\<^sup>2 / ?t * ?v"
      and e2: "?B * (?B * ?v / ?t) = ?B\<^sup>2 / ?t * ?v"
      by (simp_all add: power2_eq_square)
    from l have "?A\<^sup>2 / ?t * ?v \<le> fl ?y" by (simp only: e1)
    moreover from h have "fl ?y \<le> ?B\<^sup>2 / ?t * ?v" by (simp only: e2)
    ultimately show ?thesis using y3 by blast
  qed
  have qs: "qs = map (\<lambda>p. fl (fl (real_of_int (snd p)) / ?t)) ms"
    unfolding qs_def by (rule map_cong) auto
  show "\<forall>q \<in> set qs. 0 \<le> q" using each by (auto simp: qs)
  have "sum_list (map (\<lambda>p. ?A\<^sup>2 / ?t * real_of_int (snd p)) ms) \<le> sum_list qs"
    unfolding qs using each by (intro sum_list_mono) simp
  then have lo: "?A\<^sup>2 / ?t * ?T \<le> sum_list qs" by (simp only: sum_list_scaled)
  have "sum_list qs \<le> sum_list (map (\<lambda>p. ?B\<^sup>2 / ?t * real_of_int (snd p)) ms)"
    unfolding qs using each by (intro sum_list_mono) simp
  then have hi: "sum_list qs \<le> ?B\<^sup>2 / ?t * ?T" by (simp only: sum_list_scaled)
  have "?A\<^sup>2 * ?T / (?B ^ (?m + 1) * ?T) \<le> ?A\<^sup>2 * ?T / ?t"
    using T t tu by (intro frac_le) auto
  moreover have "?A\<^sup>2 * ?T / (?B ^ (?m + 1) * ?T) = ?A\<^sup>2 / ?B ^ (?m + 1)"
    using T by simp
  moreover have "?A\<^sup>2 * ?T / ?t = ?A\<^sup>2 / ?t * ?T" by simp
  ultimately show "?A\<^sup>2 / ?B ^ (?m + 1) \<le> sum_list qs" using lo by linarith
  have "0 < ?A ^ (?m + 1) * ?T" using A T by simp
  then have "?B\<^sup>2 * ?T / ?t \<le> ?B\<^sup>2 * ?T / (?A ^ (?m + 1) * ?T)"
    using T tl by (intro frac_le) auto
  moreover have "?B\<^sup>2 * ?T / (?A ^ (?m + 1) * ?T) = ?B\<^sup>2 / ?A ^ (?m + 1)"
    using T by simp
  moreover have "?B\<^sup>2 * ?T / ?t = ?B\<^sup>2 / ?t * ?T" by simp
  ultimately show "sum_list qs \<le> ?B\<^sup>2 / ?A ^ (?m + 1)" using hi by linarith
qed

section \<open>The corpus and learning: claims\<close>

text \<open>
  C1: for an order \<open>n \<ge> 1\<close> and either partition flag, \<open>get_ngrams\<close> yields, for each
  sentence that \<open>get_sentences\<close> produces, in order, nothing when the sentence has fewer
  than 10 tokens and otherwise the \<open>n\<close> consecutive tokens at each start position from 0
  up to \<open>len(sentence) - n\<close>, in order. A sentence of ten tokens gives, for \<open>n = 3\<close>,
  the eight tuples from \<open>(a, b, c)\<close> to \<open>(h, i, j)\<close>.
\<close>

theorem get_ngrams_windows:
  assumes "1 \<le> n"
  shows "get_ngrams rnd corpus n test k =
           (concat (map (\<lambda>s. if length s < 10 then []
                              else map (\<lambda>pos. take (nat n) (drop pos s))
                                     [0..<length s + 1 - nat n])
                        (fst (get_sentences rnd corpus test k))),
            snd (get_sentences rnd corpus test k)) \<and>
         sentence_ngrams 3 [a, b, c, d, e, f, g, h, i, j] =
           [[a, b, c], [b, c, d], [c, d, e], [d, e, f], [e, f, g], [f, g, h], [g, h, i], [h, i, j]]"
proof
  show "get_ngrams rnd corpus n test k =
           (concat (map (\<lambda>s. if length s < 10 then []
                              else map (\<lambda>pos. take (nat n) (drop pos s))
                                     [0..<length s + 1 - nat n])
                        (fst (get_sentences rnd corpus test k))),
            snd (get_sentences rnd corpus test k))"
    by (rule get_ngrams_enumeration [OF assms])
next
  have "[0..<10] = [0, 1, 2, 3, 4, 5, 6, 7, 8, 9 :: nat]" by (simp add: upt_rec)
  then show "sentence_ngrams 3 [a, b, c, d, e, f, g, h, i, j] =
           [[a, b, c], [b, c, d], [c, d, e], [d, e, f], [e, f, g], [f, g, h], [g, h, i], [h, i, j]]"
    by (simp add: sentence_ngrams_def window_def upt_rec)
qed

theorem get_ngrams_windows_witness:
  "(1::int) \<le> 3 \<and>
   get_ngrams draws_half corpus_abc 3 False 0 =
     ([[''a'', ''b'', ''c''], [''b'', ''c'', ''d''], [''c'', ''d'', ''e''], [''d'', ''e'', ''f''],
       [''e'', ''f'', ''g''], [''f'', ''g'', ''h''], [''g'', ''h'', ''i''], [''h'', ''i'', ''j'']], 1)"
proof -
  have h: "(1::int) \<le> 3" by simp
  have s: "get_sentences draws_half corpus_abc False 0 = (doc corpus_abc, 1)"
    by (simp add: get_sentences_def corpus_abc_def draws_half_def np_random_def)
  have u: "[0..<8] = [0, 1, 2, 3, 4, 5, 6, 7 :: nat]" by (simp add: upt_rec)
  show ?thesis
    using get_ngrams_windows [OF h, of draws_half corpus_abc False 0] s u
    by (simp add: corpus_abc_def)
qed

text \<open>
  C4, as stated: one draw for each sentence, which alone decides. With \<open>test = True\<close>,
  a first draw below \<open>p\<close> and a second draw above it, the code makes two draws and leaves
  the sentence out; one draw would include it.
\<close>

theorem get_sentences_one_draw_counterexample:
  "get_sentences draws_low_then_half corpus_abc True 0 = ([], 2) \<and>
   one_draw_sentences draws_low_then_half (test_percentage corpus_abc) True (doc corpus_abc) 0 =
     (doc corpus_abc, 1)"
  by (simp add: get_sentences_def corpus_abc_def draws_low_then_half_def np_random_def)

text \<open>
  C4, amended: with \<open>test = True\<close>, \<open>get_sentences\<close> makes two draws for every sentence
  and includes the sentence exactly when the second of them is below \<open>p\<close>. With
  \<open>test = False\<close> it makes one draw for a sentence when that draw is at least \<open>p\<close>, and
  includes the sentence, and two draws otherwise, and leaves the sentence out; the
  first draw of sentence \<open>i\<close> is at position \<open>first_draw rnd p k i\<close>.
\<close>

theorem get_sentences_draws:
  "get_sentences rnd corpus True k =
     (map snd (filter (\<lambda>(i, s). rnd (k + 2 * i + 1) < test_percentage corpus)
                      (enumerate 0 (doc corpus))),
      k + 2 * length (doc corpus)) \<and>
   get_sentences rnd corpus False k =
     (map snd (filter (\<lambda>(i, s). rnd (first_draw rnd (test_percentage corpus) k i) \<ge> test_percentage corpus)
                      (enumerate 0 (doc corpus))),
      first_draw rnd (test_percentage corpus) k (length (doc corpus)))"
  using sentences_loop_test [of rnd "test_percentage corpus" "doc corpus" k 0]
        sentences_loop_train [of rnd "test_percentage corpus" "doc corpus" k 0]
  by (simp add: get_sentences_def)

text \<open>
  C5: \<open>learn\<close> sets the count table to the multiset of the n-grams that \<open>get_ngrams\<close>
  yields for the training partition (each n-gram with the number of times it occurs, and
  no other key), and the alphabet to the distinct tokens of the whole document; the
  order is kept. What the model held before has no influence: a second \<open>learn\<close> gives
  what a first one would.
\<close>

theorem learn_sets_counts_and_alphabet:
  "\<exists>c a. ngrams (fst (learn rnd self corpus k)) = Some c \<and>
         alphabet (fst (learn rnd self corpus k)) = Some a \<and>
         (\<forall>g. counter_get c g =
                int (count_list (fst (get_ngrams rnd corpus (self_n self) False k)) g)) \<and>
         dom c = set (fst (get_ngrams rnd corpus (self_n self) False k)) \<and>
         set a = set (get_words corpus) \<and> distinct a \<and>
         self_n (fst (learn rnd self corpus k)) = self_n self \<and>
         snd (learn rnd self corpus k) = snd (get_ngrams rnd corpus (self_n self) False k) \<and>
         learn rnd (fst (learn rnd' self corpus' k')) corpus k = learn rnd self corpus k"
  by (simp add: learn_def new_Counter_get new_Counter_dom split: prod.splits)

section \<open>predict: errors, empty results, normalisation\<close>

lemma map_fst_scale: "map fst (map (\<lambda>(k, v). (k, f v)) ms) = map fst ms"
  by (induction ms) auto

lemma map_snd_scale: "map snd (map (\<lambda>(k, v). (k, f v)) ms) = map (\<lambda>(k, v). f v) ms"
  by (induction ms) auto

lemma trainedE:
  assumes "trained m"
  obtains c a where "ngrams m = Some c" and "alphabet m = Some a" and "1 \<le> self_n m"
    and "distinct a" and "\<forall>g \<in> dom c. int (length g) = self_n m"
  using assms by (auto simp: trained_def split: option.splits)

lemma predict_normalised:
  assumes c: "ngrams m = Some c" and a: "alphabet m = Some a"
    and len: "self_n m - 1 \<le> int (length ctxt)"
  shows "\<exists>d. predict m ctxt = Inr d \<and> distinct (map fst d) \<and>
             (d \<noteq> [] \<longrightarrow> sum_list (map snd d) = 1)"
proof -
  from predict_matches [OF c a len]
  obtain ms where d: "distinct (map fst ms)"
    and tot: "ms \<noteq> [] \<longrightarrow> 0 < total_count ms"
    and p: "predict m ctxt = Inr (map (\<lambda>(k, v). (k, real_of_int v / total_count ms)) ms)"
    by (elim exE conjE)
  let ?d = "map (\<lambda>(k, v). (k, real_of_int v / total_count ms)) ms"
  have "map snd ?d = map (\<lambda>(k, v). real_of_int v / total_count ms) ms"
    by (rule map_snd_scale)
  then have "sum_list (map snd ?d) = real_of_int (sum_list (map snd ms)) / total_count ms"
    by (simp only: sum_list_divide_real)
  then have "sum_list (map snd ?d) = total_count ms / total_count ms"
    by (simp only: total_count_sum)
  then have "?d \<noteq> [] \<longrightarrow> sum_list (map snd ?d) = 1" using tot by auto
  moreover have "distinct (map fst ?d)" using d by (simp only: map_fst_scale)
  ultimately show ?thesis using p by blast
qed

lemma predict_not_ValueError:
  assumes "self_n m - 1 \<le> int (length ctxt)"
  shows "predict m ctxt \<noteq> Inl ValueError"
proof
  assume v: "predict m ctxt = Inl ValueError"
  show False
  proof (cases "alphabet m")
    case None
    with v assms show False by (simp add: predict_def)
  next
    case (Some a)
    show False
    proof (cases "matches_loop (ngrams m) (truncate_context (self_n m) ctxt) a []")
      case (Inl e)
      then have "e = TypeError" by (rule matches_loop_error)
      with v assms Some Inl show False by (simp add: predict_def)
    next
      case (Inr ms)
      with v assms Some have "comprehension (total_count ms) ms [] = Inl ValueError"
        by (simp add: predict_def)
      then show False using comprehension_error by fastforce
    qed
  qed
qed

text \<open>
  C7: \<open>predict\<close> raises \<open>ValueError\<close> exactly when the context has fewer than \<open>n - 1\<close>
  tokens; on a trained model, a context of at least \<open>n - 1\<close> tokens gives a result.
\<close>

theorem predict_ValueError_iff:
  assumes "trained m"
  shows "(predict m ctxt = Inl ValueError \<longleftrightarrow> int (length ctxt) < self_n m - 1) \<and>
         (self_n m - 1 \<le> int (length ctxt) \<longrightarrow> (\<exists>d. predict m ctxt = Inr d))"
proof -
  have "predict m ctxt = Inl ValueError \<longleftrightarrow> int (length ctxt) < self_n m - 1"
    using predict_not_ValueError [of m ctxt] by (auto simp: predict_def)
  moreover have "\<exists>d. predict m ctxt = Inr d" if "self_n m - 1 \<le> int (length ctxt)"
  proof -
    from assms obtain c a where "ngrams m = Some c" and "alphabet m = Some a"
      by (rule trainedE)
    from predict_normalised [OF this that] show ?thesis by blast
  qed
  ultimately show ?thesis by blast
qed

lemma trained_lookup:
  assumes "trained m" and "self_n m - 1 \<le> int (length ctxt)"
  shows "0 < counter_get (the (ngrams m)) (truncate_context (self_n m) ctxt @ [w])
         \<Longrightarrow> 0 < spec_count m ctxt w"
proof -
  assume pos: "0 < counter_get (the (ngrams m)) (truncate_context (self_n m) ctxt @ [w])"
  from assms(1) obtain c a where c: "ngrams m = Some c" and a: "alphabet m = Some a"
    and n: "1 \<le> self_n m" and "distinct a"
    and keys: "\<forall>g \<in> dom c. int (length g) = self_n m"
    by (rule trainedE)
  show ?thesis
  proof (cases "2 \<le> self_n m \<or> ctxt = []")
    case True
    from truncate_context_last [OF n assms(2) True] pos show ?thesis
      by (simp add: spec_count_def)
  next
    case False
    then have one: "self_n m = 1" and ne: "ctxt \<noteq> []" using n by auto
    have "truncate_context (self_n m) ctxt @ [w] \<in> dom c"
      using pos c by (auto simp: counter_get_case split: option.splits)
    then have "int (length (truncate_context (self_n m) ctxt @ [w])) = self_n m"
      using keys by blast
    then show ?thesis using one ne by (simp add: truncate_context_order_one)
  qed
qed

text \<open>
  C6: on a trained model and a context of at least \<open>n - 1\<close> tokens, when no word of the
  alphabet has a positive count after the last \<open>n - 1\<close> tokens of the context, \<open>predict\<close>
  returns the empty dictionary: it raises nothing, the division is never reached.
\<close>

theorem predict_unseen_context_empty:
  assumes "trained m" and "self_n m - 1 \<le> int (length ctxt)"
    and "\<forall>w \<in> set (the (alphabet m)). \<not> 0 < spec_count m ctxt w"
  shows "predict m ctxt = Inr []"
proof -
  from assms(1) obtain c a where c: "ngrams m = Some c" and a: "alphabet m = Some a"
    by (rule trainedE)
  from predict_matches [OF c a assms(2)]
  obtain ms where mp: "map_of ms = (\<lambda>w. if w \<in> set a \<and>
                 0 < counter_get c (truncate_context (self_n m) ctxt @ [w])
               then Some (counter_get c (truncate_context (self_n m) ctxt @ [w])) else None)"
    and p: "predict m ctxt = Inr (map (\<lambda>(k, v). (k, real_of_int v / total_count ms)) ms)"
    by (elim exE conjE)
  have "map_of ms w = None" for w
    using trained_lookup [OF assms(1,2), of w] assms(3) c a by (auto simp: mp)
  then have "map_of ms = Map.empty" by (simp add: fun_eq_iff)
  then have "ms = []" by simp
  with p show ?thesis by simp
qed

section \<open>predict on two small models\<close>

lemma get_sentences_abc: "get_sentences draws_half corpus_abc False 0 = (doc corpus_abc, 1)"
  by (simp add: get_sentences_def corpus_abc_def draws_half_def np_random_def)

lemma get_sentences_aaa: "get_sentences draws_half corpus_aaa False 0 = (doc corpus_aaa, 1)"
  by (simp add: get_sentences_def corpus_aaa_def draws_half_def np_random_def)

lemma upt_10: "[0..<10] = [0, 1, 2, 3, 4, 5, 6, 7, 8, 9 :: nat]"
  by (simp add: upt_rec)

lemma get_ngrams_abc:
  "get_ngrams draws_half corpus_abc 3 False 0 =
     ([[''a'', ''b'', ''c''], [''b'', ''c'', ''d''], [''c'', ''d'', ''e''], [''d'', ''e'', ''f''],
       [''e'', ''f'', ''g''], [''f'', ''g'', ''h''], [''g'', ''h'', ''i''], [''h'', ''i'', ''j'']], 1)"
  by (simp add: get_ngrams_def get_sentences_abc)
     (simp add: corpus_abc_def sentence_ngrams_def window_def upt_10 upt_rec)

lemma get_ngrams_aaa:
  "get_ngrams draws_half corpus_aaa 1 False 0 =
     ([[''a''], [''a''], [''a''], [''a''], [''a''], [''a''], [''a''], [''a''], [''a''], [''a'']], 1)"
  by (simp add: get_ngrams_def get_sentences_aaa)
     (simp add: corpus_aaa_def sentence_ngrams_def window_def upt_10 upt_rec)

lemma trigram_model_fields:
  "self_n trigram_model = 3"
  "ngrams trigram_model = Some (new_Counter
     [[''a'', ''b'', ''c''], [''b'', ''c'', ''d''], [''c'', ''d'', ''e''], [''d'', ''e'', ''f''],
      [''e'', ''f'', ''g''], [''f'', ''g'', ''h''], [''g'', ''h'', ''i''], [''h'', ''i'', ''j'']])"
  "alphabet trigram_model =
     Some [''a'', ''b'', ''c'', ''d'', ''e'', ''f'', ''g'', ''h'', ''i'', ''j'']"
  by (simp_all add: trigram_model_def learn_def init_NgramModel_def get_ngrams_abc)
     (simp add: get_words_def corpus_abc_def)

lemma unigram_model_fields:
  "self_n unigram_model = 1"
  "ngrams unigram_model = Some (new_Counter
     [[''a''], [''a''], [''a''], [''a''], [''a''], [''a''], [''a''], [''a''], [''a''], [''a'']])"
  "alphabet unigram_model = Some [''a'']"
  by (simp_all add: unigram_model_def learn_def init_NgramModel_def get_ngrams_aaa)
     (simp add: get_words_def corpus_aaa_def)

lemma trigram_model_trained: "trained trigram_model"
  unfolding trigram_model_def by (rule learn_trained) (simp add: init_NgramModel_def)

lemma unigram_model_trained: "trained unigram_model"
  unfolding unigram_model_def by (rule learn_trained) (simp add: init_NgramModel_def)

lemma predict_unigram_nonempty_context: "predict unigram_model [''a''] = Inr []"
  by (simp add: predict_def unigram_model_fields truncate_context_def slice_from_def
      new_Counter_get)

lemma predict_unigram_empty_context: "predict unigram_model [] = Inr [(''a'', 1)]"
  by (simp add: predict_def unigram_model_fields truncate_context_def slice_from_def
      new_Counter_get total_count_def)

theorem predict_ValueError_iff_witness:
  "trained trigram_model \<and> predict trigram_model [''b''] = Inl ValueError \<and>
   (\<exists>d. predict trigram_model [''a'', ''b''] = Inr d)"
  using predict_ValueError_iff [OF trigram_model_trained, of "[''b'']"]
        predict_ValueError_iff [OF trigram_model_trained, of "[''a'', ''b'']"]
        trigram_model_trained
  by (simp add: trigram_model_fields)

theorem predict_unseen_context_empty_witness:
  "trained trigram_model \<and> self_n trigram_model - 1 \<le> int (length [''x'', ''y'']) \<and>
   list_all (\<lambda>w. \<not> 0 < spec_count trigram_model [''x'', ''y''] w)
     (the (alphabet trigram_model)) \<and>
   predict trigram_model [''x'', ''y''] = Inr []"
proof -
  have len: "self_n trigram_model - 1 \<le> int (length [''x'', ''y''])"
    by (simp add: trigram_model_fields)
  have un: "\<forall>w \<in> set (the (alphabet trigram_model)). \<not> 0 < spec_count trigram_model [''x'', ''y''] w"
    by (simp add: spec_count_def trigram_model_fields last_tokens_def new_Counter_get)
  show ?thesis
    using predict_unseen_context_empty [OF trigram_model_trained len un]
          trigram_model_trained len un
    by (simp add: list_all_iff)
qed

text \<open>
  C2 at order 1, on the model that \<open>learn\<close> builds from ten tokens \<open>a\<close> (a trained
  model, see \<open>unigram_model_trained\<close>): the word \<open>a\<close> is in the alphabet and the 1-gram \<open>(a)\<close>, which is the
  empty truncated context followed by \<open>a\<close>, has a positive count, but after the context
  \<open>[a]\<close> the word is not a key of the result: \<open>predict\<close> looked up \<open>(a, a)\<close>.
\<close>

theorem predict_order_one_misses_word:
  "self_n unigram_model - 1 \<le> int (length [''a'']) \<and>
   ''a'' \<in> set (the (alphabet unigram_model)) \<and>
   0 < spec_count unigram_model [''a''] ''a'' \<and>
   predict unigram_model [''a''] = Inr []"
  using predict_unigram_nonempty_context
  by (simp add: unigram_model_fields spec_count_def last_tokens_def new_Counter_get)

text \<open>
  C3 at order 1: the context \<open>[a]\<close> is longer than \<open>n - 1 = 0\<close>; \<open>predict\<close> gives the
  empty dictionary for it and \<open>{a: 1.0}\<close> for its last 0 tokens.
\<close>

theorem predict_order_one_not_truncated:
  "self_n unigram_model - 1 < int (length [''a'']) \<and>
   predict unigram_model [''a''] = Inr [] \<and>
   predict unigram_model (last_tokens (nat (self_n unigram_model - 1)) [''a'']) = Inr [(''a'', 1)]"
  using predict_unigram_nonempty_context predict_unigram_empty_context
  by (simp add: unigram_model_fields last_tokens_def)

lemma predict_truncation:
  assumes "2 \<le> self_n m" and "self_n m - 1 < int (length ctxt)"
  shows "predict m ctxt = predict m (last_tokens (nat (self_n m - 1)) ctxt)"
proof -
  let ?t = "last_tokens (nat (self_n m - 1)) ctxt"
  have lt: "int (length ?t) = self_n m - 1" using assms by (simp add: last_tokens_def)
  have "truncate_context (self_n m) ctxt = ?t"
    using assms by (intro truncate_context_last) auto
  moreover have "truncate_context (self_n m) ?t = ?t"
    using lt by (simp add: truncate_context_def)
  ultimately show ?thesis using assms lt by (simp add: predict_def cong: option.case_cong)
qed

section \<open>The distribution that predict returns\<close>

lemma predict_distribution:
  assumes tr: "trained m" and len: "self_n m - 1 \<le> int (length ctxt)"
    and ok: "2 \<le> self_n m \<or> ctxt = []"
  shows "\<exists>d. predict m ctxt = Inr d \<and> distinct (map fst d) \<and>
     (\<forall>w. map_of d w =
        (if w \<in> set (the (alphabet m)) \<and> 0 < spec_count m ctxt w
         then Some (real_of_int (spec_count m ctxt w) /
                    real_of_int (\<Sum>v \<in> {v \<in> set (the (alphabet m)). 0 < spec_count m ctxt v}.
                                   spec_count m ctxt v))
         else None)) \<and>
     (\<forall>q \<in> snd ` set d. 0 < q)"
proof -
  from tr obtain c a where c: "ngrams m = Some c" and a: "alphabet m = Some a"
    and n: "1 \<le> self_n m" and "distinct a"
    and "\<forall>g \<in> dom c. int (length g) = self_n m"
    by (rule trainedE)
  have cnt: "counter_get c (truncate_context (self_n m) ctxt @ [w]) = spec_count m ctxt w" for w
    using truncate_context_last [OF n len ok] c by (simp add: spec_count_def)
  from predict_matches [OF c a len]
  obtain ms where d: "distinct (map fst ms)"
    and mp: "map_of ms = (\<lambda>w. if w \<in> set a \<and> 0 < spec_count m ctxt w
                            then Some (spec_count m ctxt w) else None)"
    and tot: "ms \<noteq> [] \<longrightarrow> 0 < total_count ms"
    and p: "predict m ctxt = Inr (map (\<lambda>(k, v). (k, real_of_int v / total_count ms)) ms)"
    unfolding cnt by (elim exE conjE)
  let ?K = "{v \<in> set a. 0 < spec_count m ctxt v}"
  let ?d = "map (\<lambda>(k, v). (k, real_of_int v / total_count ms)) ms"
  have keys: "fst ` set ms = ?K"
    using dom_map_of_conv_image_fst [of ms] by (auto simp: mp dom_def split: if_splits)
  have "sum_list (map snd ms) = (\<Sum>k \<in> ?K. the (map_of ms k))"
    using sum_list_alist [OF d] by (simp only: keys)
  also have "\<dots> = (\<Sum>k \<in> ?K. spec_count m ctxt k)"
    by (intro sum.cong) (auto simp: mp)
  finally have total: "total_count ms = real_of_int (\<Sum>k \<in> ?K. spec_count m ctxt k)"
    by (simp only: total_count_sum)
  have "map_of ?d = map_option (\<lambda>v. real_of_int v / total_count ms) \<circ> map_of ms"
    by (rule map_of_map)
  then have vals: "map_of ?d w =
        (if w \<in> set a \<and> 0 < spec_count m ctxt w
         then Some (real_of_int (spec_count m ctxt w) /
                    real_of_int (\<Sum>v \<in> ?K. spec_count m ctxt v))
         else None)" for w
    by (simp add: mp total)
  have positive: "0 < q" if "q \<in> snd ` set ?d" for q
  proof -
    from that obtain k v where kv: "(k, v) \<in> set ms" and q: "q = real_of_int v / total_count ms"
      by auto
    from kv d have "map_of ms k = Some v" by simp
    then have "0 < v" by (auto simp: mp split: if_splits)
    moreover have "0 < total_count ms" using tot kv by auto
    ultimately show ?thesis using q by simp
  qed
  have "distinct (map fst ?d)" using d by (simp only: map_fst_scale)
  with p vals positive a show ?thesis by auto
qed

section \<open>Cross entropy\<close>

lemma getitem_last:
  assumes "length g = nat n" and "1 \<le> n"
  shows "getitem g (n - 1) = Inr (last g)"
proof -
  have ne: "g \<noteq> []" using assms by auto
  have "nat (n - 1) = length g - 1" using assms by simp
  then show ?thesis using assms ne by (simp add: getitem_def last_conv_nth)
qed

lemma slice_to_butlast:
  assumes "length g = nat n" and "1 \<le> n"
  shows "slice_to (n - 1) g = butlast g"
proof -
  have "nat (min (n - 1) (int (length g))) = length g - 1" using assms by simp
  then show ?thesis using assms by (simp add: slice_to_def butlast_conv_take)
qed

lemma cross_ent_loop_scored:
  assumes tr: "trained m" and n: "self_n m = n"
  shows "\<forall>g \<in> set gs. length g = nat n \<Longrightarrow>
         cross_ent_loop m n gs ce cnt =
           Inr (ce + sum_list (map (\<lambda>g. - log 2 (the (target_probability m g)))
                                 (filter (\<lambda>g. target_probability m g \<noteq> None) gs)),
                cnt + length (filter (\<lambda>g. target_probability m g \<noteq> None) gs))"
proof (induction gs arbitrary: ce cnt)
  case Nil
  show ?case by simp
next
  case (Cons g gs)
  from tr obtain c a where c: "ngrams m = Some c" and a: "alphabet m = Some a"
    and n1: "1 \<le> self_n m" and "distinct a"
    and "\<forall>g \<in> dom c. int (length g) = self_n m"
    by (rule trainedE)
  have lg: "length g = nat n" using Cons.prems by simp
  have one: "1 \<le> n" using n n1 by simp
  have "self_n m - 1 \<le> int (length (butlast g))" using lg n one by simp
  from predict_normalised [OF c a this] obtain d where d: "predict m (butlast g) = Inr d"
    by blast
  have tp: "target_probability m g = map_of d (last g)"
    by (simp add: target_probability_def d)
  have rest: "\<forall>g \<in> set gs. length g = nat n" using Cons.prems by simp
  show ?case
  proof (cases "map_of d (last g)")
    case None
    then show ?thesis
      using Cons.IH [OF rest, of ce cnt] tp d
      by (simp add: getitem_last [OF lg one] slice_to_butlast [OF lg one])
  next
    case (Some pr)
    then show ?thesis
      using Cons.IH [OF rest, of "ce - log 2 pr" "cnt + 1"] tp d
      by (simp add: getitem_last [OF lg one] slice_to_butlast [OF lg one])
  qed
qed

text \<open>
  C8: for a trained model of the order \<open>n\<close> that \<open>cross_ent\<close> is called with, the n-grams
  that count are those of \<open>get_ngrams\<close> whose last token is a key of the distribution that
  \<open>predict\<close> returns for the tokens before it; the others are passed over. The result
  is the sum of \<open>- log2\<close> of the probabilities of those last tokens divided by their
  number, with that number; when there is none, \<open>ZeroDivisionError\<close> is raised.
\<close>

theorem cross_ent_counts_scored:
  assumes "trained m" and "self_n m = n"
  shows "cross_ent rnd m corpus n test k =
     (let scored = filter (\<lambda>g. target_probability m g \<noteq> None)
                          (fst (get_ngrams rnd corpus n test k))
      in if scored = [] then Inl ZeroDivisionError
         else Inr ((sum_list (map (\<lambda>g. - log 2 (the (target_probability m g))) scored)
                      / real (length scored),
                    length scored),
                   snd (get_ngrams rnd corpus n test k)))"
proof -
  obtain gs k' where g: "get_ngrams rnd corpus n test k = (gs, k')"
    by (cases "get_ngrams rnd corpus n test k")
  have "\<forall>x \<in> set gs. length x = nat n"
    using get_ngrams_length [of _ rnd corpus n test k] g by simp
  from cross_ent_loop_scored [OF assms this, of 0 0] show ?thesis
    by (simp add: cross_ent_def g Let_def)
qed

lemma get_sentences_abc_test: "get_sentences draws_half corpus_abc True 0 = ([], 2)"
  by (simp add: get_sentences_def corpus_abc_def draws_half_def np_random_def)

theorem cross_ent_counts_scored_witness:
  "trained trigram_model \<and> self_n trigram_model = 3 \<and>
   cross_ent draws_half trigram_model corpus_abc 3 True 0 = Inl ZeroDivisionError"
proof -
  have n: "self_n trigram_model = 3" by (simp add: trigram_model_fields)
  have "get_ngrams draws_half corpus_abc 3 True 0 = ([], 2)"
    by (simp add: get_ngrams_def get_sentences_abc_test)
  then show ?thesis
    using cross_ent_counts_scored [OF trigram_model_trained n, of draws_half corpus_abc True 0]
          trigram_model_trained n
    by simp
qed

lemma cross_ent_training_abc:
  "cross_ent draws_half trigram_model corpus_abc 3 False 0 = Inr ((0, 8), 1)"
  by (simp add: cross_ent_def get_ngrams_abc)
     (simp add: getitem_def slice_to_def predict_def trigram_model_fields
        truncate_context_def new_Counter_get total_count_def)

section \<open>What predict leaves unchanged\<close>

lemma getitem_Counter_eq: "getitem_Counter c g = (counter_get c g, c)"
  by (simp add: counter_get_def getitem_Counter_def split: option.splits)

lemma store_back_same:
  "ngrams (model_obj st) = Some c \<Longrightarrow> st\<lparr>model_obj := (model_obj st)\<lparr>ngrams := Some c\<rparr>\<rparr> = st"
  by (cases st, cases "model_obj st") auto

lemma matches_loop_obj_eq:
  "matches_loop_obj ctxt ws acc st =
     (matches_loop (ngrams (model_obj st)) (lists st ctxt) ws acc, st)"
proof (induction ws arbitrary: acc)
  case Nil
  show ?case by simp
next
  case (Cons w ws)
  show ?case
  proof (cases "ngrams (model_obj st)")
    case None
    then show ?thesis by simp
  next
    case (Some c)
    then show ?thesis
      using Cons [of "AList.update w (counter_get c (lists st ctxt @ [w])) acc"] Cons [of acc]
      by (simp add: getitem_Counter_eq store_back_same)
  qed
qed

lemma predict_obj_eq:
  "predict_obj ctxt st =
     (predict (model_obj st) (lists st ctxt),
      if int (length (lists st ctxt)) < self_n (model_obj st) - 1 then st
      else if int (length (lists st ctxt)) \<ge> self_n (model_obj st)
      then snd (new_list (slice_from (- self_n (model_obj st) + 1) (lists st ctxt)) st)
      else st)"
  by (simp add: predict_obj_def predict_def truncate_context_def new_list_def
      matches_loop_obj_eq split: option.splits sum.splits)

lemma new_list_frame:
  "model_obj (snd (new_list xs st)) = model_obj st"
  "b < next_free st \<Longrightarrow> lists (snd (new_list xs st)) b = lists st b"
  "lists (snd (new_list xs st)) (fst (new_list xs st)) = xs"
  "next_free st \<le> next_free (snd (new_list xs st))"
  by (simp_all add: new_list_def)

text \<open>
  C10: \<open>predict\<close> and \<open>predict_str\<close> leave the model object as it was, count table and
  alphabet included, and leave every list object that existed before the call as it was,
  the caller's context among them; what they return is what the functions \<open>predict\<close>
  and \<open>predict_str\<close> above compute. Reading a key that the count table does not hold
  gives 0 and the same table.
\<close>

theorem predict_frame:
  "model_obj (snd (predict_obj ctxt st)) = model_obj st \<and>
   (\<forall>b < next_free st. lists (snd (predict_obj ctxt st)) b = lists st b) \<and>
   fst (predict_obj ctxt st) = predict (model_obj st) (lists st ctxt) \<and>
   model_obj (snd (predict_str_obj nlp s st)) = model_obj st \<and>
   (\<forall>b < next_free st. lists (snd (predict_str_obj nlp s st)) b = lists st b) \<and>
   fst (predict_str_obj nlp s st) = predict_str nlp (model_obj st) s \<and>
   (c g = None \<longrightarrow> getitem_Counter c g = (0, c))"
proof -
  have m: "model_obj (snd (predict_obj a t)) = model_obj t" for a t
    by (simp add: predict_obj_eq new_list_frame)
  have l: "b < next_free t \<Longrightarrow> lists (snd (predict_obj a t)) b = lists t b" for a b t
    by (simp add: predict_obj_eq new_list_frame)
  obtain a t where nl: "new_list (nlp s) st = (a, t)" by (cases "new_list (nlp s) st")
  then have t: "model_obj t = model_obj st" "lists t a = nlp s"
    "next_free st \<le> next_free t" "\<And>b. b < next_free st \<Longrightarrow> lists t b = lists st b"
    using new_list_frame [where xs = "nlp s" and st = st] by simp_all
  have "model_obj (snd (predict_str_obj nlp s st)) = model_obj st"
    by (simp add: predict_str_obj_def nl m t)
  moreover have "\<forall>b < next_free st. lists (snd (predict_str_obj nlp s st)) b = lists st b"
    using t l [of _ t a] by (simp add: predict_str_obj_def nl)
  moreover have "fst (predict_str_obj nlp s st) = predict_str nlp (model_obj st) s"
    by (simp add: predict_str_obj_def nl predict_obj_eq t predict_str_def)
  moreover have "c g = None \<longrightarrow> getitem_Counter c g = (0, c)"
    by (simp add: getitem_Counter_def)
  ultimately show ?thesis using m [of ctxt st] l [of _ st ctxt]
    by (simp add: predict_obj_eq)
qed

theorem predict_frame_witness:
  "(0::nat) < next_free sample_store \<and>
   model_obj (snd (predict_obj 0 sample_store)) = trigram_model \<and>
   lists (snd (predict_obj 0 sample_store)) 0 = [''x'', ''a'', ''b''] \<and>
   fst (predict_obj 0 sample_store) = Inr [(''c'', 1)] \<and>
   getitem_Counter (\<lambda>g. None) [''x''] = (0, \<lambda>g. None)"
proof -
  have p: "predict trigram_model [''x'', ''a'', ''b''] = Inr [(''c'', 1)]"
    by (simp add: predict_def trigram_model_fields truncate_context_def slice_from_def
        new_Counter_get total_count_def)
  show ?thesis
    using predict_frame [of 0 sample_store "\<lambda>s. []" "[]" "\<lambda>g. None" "[''x'']"] p
    by (simp add: sample_store_def)
qed

section \<open>The sum of the predicted probabilities\<close>

lemma predict_fl_sum_bounds:
  assumes tr: "trained m" and len: "self_n m - 1 \<le> int (length ctxt)" and r: "rounds u fl"
  shows "\<exists>d. predict_fl fl m ctxt = Inr d \<and> distinct (map fst d) \<and>
           (d \<noteq> [] \<longrightarrow>
              (1 - u)\<^sup>2 / (1 + u) ^ (length d + 1) \<le> sum_list (map snd d) \<and>
              sum_list (map snd d) \<le> (1 + u)\<^sup>2 / (1 - u) ^ (length d + 1) \<and>
              (1 - u) ^ (length d + 2) / (1 + u) ^ (length d + 1) \<le> float_sum fl (map snd d) \<and>
              float_sum fl (map snd d) \<le> (1 + u) ^ (length d + 2) / (1 - u) ^ (length d + 1))"
proof -
  from tr obtain c a where c: "ngrams m = Some c" and a: "alphabet m = Some a"
    and "1 \<le> self_n m" and "distinct a" and "\<forall>g \<in> dom c. int (length g) = self_n m"
    by (rule trainedE)
  from predict_fl_matches [OF c a len r]
  obtain ms where dist: "distinct (map fst ms)" and pos: "\<forall>p \<in> set ms. 0 < snd p"
    and p: "predict_fl fl m ctxt =
              Inr (map (\<lambda>(k, v). (k, fl (fl (real_of_int v) / total_count_fl fl ms))) ms)"
    by (elim exE conjE)
  let ?d = "map (\<lambda>(k, v). (k, fl (fl (real_of_int v) / total_count_fl fl ms))) ms"
  let ?qs = "map (\<lambda>(k, v). fl (fl (real_of_int v) / total_count_fl fl ms)) ms"
  let ?A = "1 - u" and ?B = "1 + u" and ?m = "length ms"
  have qs: "map snd ?d = ?qs" by (rule map_snd_scale)
  have ld: "length ?d = ?m" by simp
  have dd: "distinct (map fst ?d)" using dist by (simp only: map_fst_scale)
  have u: "0 \<le> u" "u < 1" using roundsD [OF r] by auto
  have bounds: "?A\<^sup>2 / ?B ^ (?m + 1) \<le> sum_list ?qs \<and>
                sum_list ?qs \<le> ?B\<^sup>2 / ?A ^ (?m + 1) \<and>
                ?A ^ (?m + 2) / ?B ^ (?m + 1) \<le> float_sum fl ?qs \<and>
                float_sum fl ?qs \<le> ?B ^ (?m + 2) / ?A ^ (?m + 1)" if ne: "ms \<noteq> []"
  proof -
    have lo: "?A\<^sup>2 / ?B ^ (?m + 1) \<le> sum_list ?qs"
      and hi: "sum_list ?qs \<le> ?B\<^sup>2 / ?A ^ (?m + 1)"
      and nn: "\<forall>q \<in> set ?qs. 0 \<le> q"
      using rounded_values_bounds [OF r pos ne] by auto
    from fold_fl_bounds [OF r nn, of 0]
    have f1: "?A ^ ?m * sum_list ?qs \<le> float_sum fl ?qs"
      and f2: "float_sum fl ?qs \<le> ?B ^ ?m * sum_list ?qs"
      by (simp_all add: float_sum_def)
    have "?A ^ ?m * (?A\<^sup>2 / ?B ^ (?m + 1)) \<le> ?A ^ ?m * sum_list ?qs"
      using lo u by (intro mult_left_mono) auto
    moreover have "?A ^ ?m * (?A\<^sup>2 / ?B ^ (?m + 1)) = ?A ^ (?m + 2) / ?B ^ (?m + 1)"
      by (simp add: power_add power2_eq_square)
    ultimately have g1: "?A ^ (?m + 2) / ?B ^ (?m + 1) \<le> float_sum fl ?qs"
      using f1 by linarith
    have "?B ^ ?m * sum_list ?qs \<le> ?B ^ ?m * (?B\<^sup>2 / ?A ^ (?m + 1))"
      using hi u by (intro mult_left_mono) auto
    moreover have "?B ^ ?m * (?B\<^sup>2 / ?A ^ (?m + 1)) = ?B ^ (?m + 2) / ?A ^ (?m + 1)"
      by (simp add: power_add power2_eq_square)
    ultimately have g2: "float_sum fl ?qs \<le> ?B ^ (?m + 2) / ?A ^ (?m + 1)"
      using f2 by linarith
    from lo hi g1 g2 show ?thesis by blast
  qed
  have "?d \<noteq> [] \<longrightarrow>
          ?A\<^sup>2 / ?B ^ (length ?d + 1) \<le> sum_list (map snd ?d) \<and>
          sum_list (map snd ?d) \<le> ?B\<^sup>2 / ?A ^ (length ?d + 1) \<and>
          ?A ^ (length ?d + 2) / ?B ^ (length ?d + 1) \<le> float_sum fl (map snd ?d) \<and>
          float_sum fl (map snd ?d) \<le> ?B ^ (length ?d + 2) / ?A ^ (length ?d + 1)"
    unfolding qs ld using bounds by auto
  with p dd show ?thesis by blast
qed

text \<open>
  C9: on a trained model and a context of at least \<open>n - 1\<close> tokens, \<open>predict\<close> returns a
  dictionary, with distinct keys. When it is not empty and has \<open>k\<close> keys, and the doubles
  round with a relative error of at most \<open>u\<close>, the sum of its values lies between
  \<open>(1 - u)^2 / (1 + u)^(k + 1)\<close> and \<open>(1 + u)^2 / (1 - u)^(k + 1)\<close>, and the sum that
  \<^verbatim>\<open>sum(d.values())\<close> accumulates in doubles between \<open>(1 - u)^(k + 2) / (1 + u)^(k + 1)\<close>
  and \<open>(1 + u)^(k + 2) / (1 - u)^(k + 1)\<close>. With exact arithmetic, which is \<open>fl\<close> the
  identity, the sum is 1.
\<close>

theorem predict_sums_to_one:
  assumes "trained m" and "self_n m - 1 \<le> int (length ctxt)" and "rounds u fl"
  shows "(\<exists>d. predict_fl fl m ctxt = Inr d \<and> distinct (map fst d) \<and>
            (d \<noteq> [] \<longrightarrow>
               (1 - u)\<^sup>2 / (1 + u) ^ (length d + 1) \<le> sum_list (map snd d) \<and>
               sum_list (map snd d) \<le> (1 + u)\<^sup>2 / (1 - u) ^ (length d + 1) \<and>
               (1 - u) ^ (length d + 2) / (1 + u) ^ (length d + 1) \<le> float_sum fl (map snd d) \<and>
               float_sum fl (map snd d) \<le> (1 + u) ^ (length d + 2) / (1 - u) ^ (length d + 1))) \<and>
         (\<exists>d. predict_fl (\<lambda>x. x) m ctxt = Inr d \<and> distinct (map fst d) \<and>
            (d \<noteq> [] \<longrightarrow> sum_list (map snd d) = 1))"
proof
  show "\<exists>d. predict_fl fl m ctxt = Inr d \<and> distinct (map fst d) \<and>
            (d \<noteq> [] \<longrightarrow>
               (1 - u)\<^sup>2 / (1 + u) ^ (length d + 1) \<le> sum_list (map snd d) \<and>
               sum_list (map snd d) \<le> (1 + u)\<^sup>2 / (1 - u) ^ (length d + 1) \<and>
               (1 - u) ^ (length d + 2) / (1 + u) ^ (length d + 1) \<le> float_sum fl (map snd d) \<and>
               float_sum fl (map snd d) \<le> (1 + u) ^ (length d + 2) / (1 - u) ^ (length d + 1))"
    using assms by (rule predict_fl_sum_bounds)
next
  from predict_fl_sum_bounds [OF assms(1,2) rounds_exact]
  obtain d where p: "predict_fl (\<lambda>x. x) m ctxt = Inr d" and dd: "distinct (map fst d)"
    and b: "d \<noteq> [] \<longrightarrow> 1 \<le> sum_list (map snd d) \<and> sum_list (map snd d) \<le> 1"
    by auto
  from b have "d \<noteq> [] \<longrightarrow> sum_list (map snd d) = 1" by auto
  with p dd show "\<exists>d. predict_fl (\<lambda>x. x) m ctxt = Inr d \<and> distinct (map fst d) \<and>
            (d \<noteq> [] \<longrightarrow> sum_list (map snd d) = 1)" by blast
qed

lemma rounds_fl_up: "rounds (1 / 1024) fl_up"
  by (simp add: rounds_def fl_up_def)

lemma get_ngrams_abc_unigrams:
  "get_ngrams draws_half corpus_abc 1 False 0 =
     ([[''a''], [''b''], [''c''], [''d''], [''e''], [''f''], [''g''], [''h''], [''i''], [''j'']], 1)"
  by (simp add: get_ngrams_def get_sentences_abc)
     (simp add: corpus_abc_def sentence_ngrams_def window_def upt_10 upt_rec)

lemma unigram_abc_model_fields:
  "self_n unigram_abc_model = 1"
  "ngrams unigram_abc_model = Some (new_Counter
     [[''a''], [''b''], [''c''], [''d''], [''e''], [''f''], [''g''], [''h''], [''i''], [''j'']])"
  "alphabet unigram_abc_model =
     Some [''a'', ''b'', ''c'', ''d'', ''e'', ''f'', ''g'', ''h'', ''i'', ''j'']"
  by (simp_all add: unigram_abc_model_def learn_def init_NgramModel_def get_ngrams_abc_unigrams)
     (simp add: get_words_def corpus_abc_def)

lemma unigram_abc_model_trained: "trained unigram_abc_model"
  unfolding unigram_abc_model_def by (rule learn_trained) (simp add: init_NgramModel_def)

lemma predict_fl_up_unigrams:
  "predict_fl fl_up unigram_abc_model [] =
     Inr [(''a'', 1237940039285380274899124224 / 12433943968128420921509685249),
          (''b'', 1237940039285380274899124224 / 12433943968128420921509685249),
          (''c'', 1237940039285380274899124224 / 12433943968128420921509685249),
          (''d'', 1237940039285380274899124224 / 12433943968128420921509685249),
          (''e'', 1237940039285380274899124224 / 12433943968128420921509685249),
          (''f'', 1237940039285380274899124224 / 12433943968128420921509685249),
          (''g'', 1237940039285380274899124224 / 12433943968128420921509685249),
          (''h'', 1237940039285380274899124224 / 12433943968128420921509685249),
          (''i'', 1237940039285380274899124224 / 12433943968128420921509685249),
          (''j'', 1237940039285380274899124224 / 12433943968128420921509685249)]"
  by (simp add: predict_fl_def unigram_abc_model_fields truncate_context_def
      new_Counter_get total_count_fl_def fl_up_def)

theorem predict_sums_to_one_witness:
  "trained unigram_abc_model \<and> self_n unigram_abc_model - 1 \<le> int (length ([] :: token list)) \<and>
   rounds (1 / 1024) fl_up \<and>
   (\<exists>d. predict_fl fl_up unigram_abc_model [] = Inr d \<and> length d = 10 \<and>
      sum_list (map snd d) \<noteq> 1 \<and>
      (1 - 1 / 1024)\<^sup>2 / (1 + 1 / 1024) ^ 11 \<le> sum_list (map snd d) \<and>
      sum_list (map snd d) \<le> (1 + 1 / 1024)\<^sup>2 / (1 - 1 / 1024) ^ 11 \<and>
      (1 - 1 / 1024) ^ 12 / (1 + 1 / 1024) ^ 11 \<le> float_sum fl_up (map snd d) \<and>
      float_sum fl_up (map snd d) \<le> (1 + 1 / 1024) ^ 12 / (1 - 1 / 1024) ^ 11)"
proof -
  have len: "self_n unigram_abc_model - 1 \<le> int (length ([] :: token list))"
    by (simp add: unigram_abc_model_fields)
  from predict_sums_to_one [OF unigram_abc_model_trained len rounds_fl_up]
  obtain d where p: "predict_fl fl_up unigram_abc_model [] = Inr d"
    and b: "d \<noteq> [] \<longrightarrow>
      (1 - 1 / 1024)\<^sup>2 / (1 + 1 / 1024) ^ (length d + 1) \<le> sum_list (map snd d) \<and>
      sum_list (map snd d) \<le> (1 + 1 / 1024)\<^sup>2 / (1 - 1 / 1024) ^ (length d + 1) \<and>
      (1 - 1 / 1024) ^ (length d + 2) / (1 + 1 / 1024) ^ (length d + 1)
        \<le> float_sum fl_up (map snd d) \<and>
      float_sum fl_up (map snd d)
        \<le> (1 + 1 / 1024) ^ (length d + 2) / (1 - 1 / 1024) ^ (length d + 1)"
    by blast
  from p have d: "d = [(''a'', 1237940039285380274899124224 / 12433943968128420921509685249),
        (''b'', 1237940039285380274899124224 / 12433943968128420921509685249),
        (''c'', 1237940039285380274899124224 / 12433943968128420921509685249),
        (''d'', 1237940039285380274899124224 / 12433943968128420921509685249),
        (''e'', 1237940039285380274899124224 / 12433943968128420921509685249),
        (''f'', 1237940039285380274899124224 / 12433943968128420921509685249),
        (''g'', 1237940039285380274899124224 / 12433943968128420921509685249),
        (''h'', 1237940039285380274899124224 / 12433943968128420921509685249),
        (''i'', 1237940039285380274899124224 / 12433943968128420921509685249),
        (''j'', 1237940039285380274899124224 / 12433943968128420921509685249)]"
    by (simp add: predict_fl_up_unigrams)
  have l: "length d = 10" and s: "sum_list (map snd d) \<noteq> 1" by (simp_all add: d)
  have e: "length d + 1 = 11" "length d + 2 = 12" "d \<noteq> []" using l by auto
  from b e have
     "(1 - 1 / 1024)\<^sup>2 / (1 + 1 / 1024) ^ 11 \<le> sum_list (map snd d) \<and>
      sum_list (map snd d) \<le> (1 + 1 / 1024)\<^sup>2 / (1 - 1 / 1024) ^ 11 \<and>
      (1 - 1 / 1024) ^ 12 / (1 + 1 / 1024) ^ 11 \<le> float_sum fl_up (map snd d) \<and>
      float_sum fl_up (map snd d) \<le> (1 + 1 / 1024) ^ 12 / (1 - 1 / 1024) ^ 11"
    by (simp only: e)
  with p l s unigram_abc_model_trained len rounds_fl_up show ?thesis by blast
qed

section \<open>What rounding cannot change\<close>

text \<open>
  Rounding changes the values of the result and nothing else: \<open>predict\<close> in doubles
  raises the same error, or returns the same keys in the same order, as \<open>predict\<close> in
  exact arithmetic.
\<close>

lemma predict_fl_same_keys:
  assumes r: "rounds u fl"
  shows "map_sum id (map fst) (predict_fl fl m ctxt) = map_sum id (map fst) (predict m ctxt)"
proof (cases "int (length ctxt) < self_n m - 1")
  case True
  then show ?thesis by (simp add: predict_fl_def predict_def)
next
  case len: False
  show ?thesis
  proof (cases "alphabet m")
    case None
    then show ?thesis using len by (simp add: predict_fl_def predict_def)
  next
    case (Some a)
    let ?t = "truncate_context (self_n m) ctxt"
    show ?thesis
    proof (cases "ngrams m")
      case None
      then show ?thesis using len Some by (cases a) (simp_all add: predict_fl_def predict_def)
    next
      case c: (Some c)
      from matches_loop_start [of c ?t a]
      obtain ms where run: "matches_loop (Some c) ?t a [] = Inr ms"
        and mp: "map_of ms = (\<lambda>w. if w \<in> set a \<and> 0 < counter_get c (?t @ [w])
                                then Some (counter_get c (?t @ [w])) else None)"
        and d: "distinct (map fst ms)" by (elim exE conjE)
      have pos: "\<forall>p \<in> set ms. 0 < snd p"
      proof
        fix p assume "p \<in> set ms"
        moreover obtain k v where p: "p = (k, v)" by (cases p)
        ultimately have "map_of ms k = Some v" using d by simp
        then show "0 < snd p" using p by (auto simp: mp split: if_splits)
      qed
      show ?thesis
      proof (cases "ms = []")
        case True
        then show ?thesis using len Some c run by (simp add: predict_fl_def predict_def)
      next
        case False
        have "0 < sum_list (map snd ms)" using False pos by (intro sum_list_pos_int) auto
        then have T: "0 < real_of_int (sum_list (map snd ms))" by simp
        then have nz1: "total_count ms \<noteq> 0" by (simp add: total_count_sum)
        have "0 < (1 - u) ^ (length ms + 1)" using roundsD(2) [OF r] by simp
        then have "0 < (1 - u) ^ (length ms + 1) * real_of_int (sum_list (map snd ms))"
          using T by (rule mult_pos_pos)
        also have "\<dots> \<le> total_count_fl fl ms" by (rule total_count_fl_bounds(1) [OF r pos])
        finally have nz2: "total_count_fl fl ms \<noteq> 0" by simp
        show ?thesis
          using len Some c run comprehension_map [OF nz1 d, of "[]"]
            comprehension_fl_map [OF nz2 d, of "[]" fl]
          by (auto simp: predict_fl_def predict_def)
      qed
    qed
  qed
qed

end
